theory Spec2Isabelle
  imports Complex_Main
begin

section \<open>The angle-distance function of the unit-testing notebook\<close>

text \<open>
  The notebook \<^verbatim>\<open>Unit_testing.ipynb\<close> develops one function in four versions. The
  last two are

  \<^verbatim>\<open>
  def angle_distance(a, b):          # third version
      d = abs(b - a)
      return min(360 - d, d)

  def angle_distance(a, b):          # final version
      d = abs((b % 360) - (a % 360))
      return min(360 - d, d)
  \<close>

  The function is untyped. The tests call it with Python ints; the specification speaks
  of real-valued scalars, which in Python are floats. Both are modelled, together with
  the way Python mixes them: int arithmetic is exact, float arithmetic rounds every
  result to the nearest double.
\<close>

subsection \<open>Rounding to a double\<close>

text \<open>
  A finite double is a real number \<open>n * 2 ^ k\<close> with \<open>\<bar>n\<bar> < 2 ^ 53\<close> and
  \<open>- 1074 \<le> k \<le> 971\<close>. The result of a float operation is the exact result rounded to
  the nearest such number, ties going to the one with an even significand.

  \<open>round_half_even q\<close> is the integer nearest to \<open>q\<close>, the even one of the two when \<open>q\<close>
  lies half-way.
\<close>

definition round_half_even :: "real \<Rightarrow> int" where
  "round_half_even q =
     (let f = \<lfloor>q\<rfloor>; r = q - of_int f
      in if r < 1 / 2 then f else if 1 / 2 < r then f + 1 else if even f then f else f + 1)"

text \<open>
  The binary exponent of \<open>x\<close>, not below that of the smallest normal double, and the
  distance \<open>fl_ulp x\<close> between neighbouring doubles at the magnitude of \<open>x\<close>: the
  significand has 53 bits.
\<close>

definition fl_exponent :: "real \<Rightarrow> int" where
  "fl_exponent x = max \<lfloor>log 2 \<bar>x\<bar>\<rfloor> (- 1022)"

definition fl_ulp :: "real \<Rightarrow> real" where
  "fl_ulp x = 2 powi (fl_exponent x - 52)"

text \<open>
  Rounding to the nearest multiple of \<open>fl_ulp x\<close>, with no bound on the exponent. The
  largest finite double is \<open>fl_max\<close>; a rounded result beyond it is an overflow.
\<close>

definition fl_round :: "real \<Rightarrow> real" where
  "fl_round x = (if x = 0 then 0 else of_int (round_half_even (x / fl_ulp x)) * fl_ulp x)"

definition fl_max :: real where
  "fl_max = (2 ^ 53 - 1) * 2 ^ 971"

text \<open>
  The reals that are finite doubles: rounding leaves them unchanged, and they are within
  range.
\<close>

definition is_double :: "real \<Rightarrow> bool" where
  "is_double x = (fl_round x = x \<and> \<bar>x\<bar> \<le> fl_max)"

subsection \<open>Python numbers\<close>

text \<open>
  A number is a Python \<^verbatim>\<open>int\<close> (unbounded, exact) or a Python \<^verbatim>\<open>float\<close>, given by
  the real number it denotes. The floats of Python are the finite doubles
  (\<open>py_wf\<close>); the operations below are defined for every real and return doubles.
  Infinities and not-a-number are not values of the model, and the two zeros of a double
  are one number.
\<close>

datatype pynum = PInt int | PFloat real

fun py_val :: "pynum \<Rightarrow> real" where
  "py_val (PInt i) = of_int i"
| "py_val (PFloat x) = x"

fun is_int :: "pynum \<Rightarrow> bool" where
  "is_int (PInt i) = True"
| "is_int (PFloat x) = False"

fun py_wf :: "pynum \<Rightarrow> bool" where
  "py_wf (PInt i) = True"
| "py_wf (PFloat x) = is_double x"

text \<open>
  An operation returns a number or ends in an error. \<open>ZeroDivisionError\<close> and
  \<open>OverflowError\<close> are the exceptions Python raises. \<open>NonFinite\<close> is no exception: it
  marks a float operation whose result overflows to an infinity, which Python returns
  without raising and which the model does not follow further.
\<close>

datatype error = ZeroDivisionError | OverflowError | NonFinite

definition bind_result :: "error + 'a \<Rightarrow> ('a \<Rightarrow> error + 'b) \<Rightarrow> error + 'b" where
  "bind_result r f = (case r of Inl e \<Rightarrow> Inl e | Inr v \<Rightarrow> f v)"

text \<open>
  The result of a float operation whose exact result is \<open>z\<close>.
\<close>

definition fl_result :: "real \<Rightarrow> error + pynum" where
  "fl_result z = (let r = fl_round z in if \<bar>r\<bar> \<le> fl_max then Inr (PFloat r) else Inl NonFinite)"

text \<open>
  An int operand of a float operation is first converted to a float: rounded to the
  nearest double, with \<^verbatim>\<open>OverflowError\<close> when it is too large.
\<close>

fun py_float :: "pynum \<Rightarrow> error + real" where
  "py_float (PInt i) =
     (let r = fl_round (of_int i) in if \<bar>r\<bar> \<le> fl_max then Inr r else Inl OverflowError)"
| "py_float (PFloat x) = Inr x"

text \<open>
  \<^verbatim>\<open>x - y\<close> and \<^verbatim>\<open>x + y\<close>: exact on two ints; otherwise both operands become floats
  and the result is rounded. The function does not add; addition is needed to state the
  properties about \<^verbatim>\<open>a + 360*k\<close>, \<^verbatim>\<open>a + 180\<close> and \<^verbatim>\<open>a + c\<close>.
\<close>

fun py_sub :: "pynum \<Rightarrow> pynum \<Rightarrow> error + pynum" where
  "py_sub (PInt i) (PInt j) = Inr (PInt (i - j))"
| "py_sub x y =
     bind_result (py_float x) (\<lambda>u. bind_result (py_float y) (\<lambda>v. fl_result (u - v)))"

fun py_add :: "pynum \<Rightarrow> pynum \<Rightarrow> error + pynum" where
  "py_add (PInt i) (PInt j) = Inr (PInt (i + j))"
| "py_add x y =
     bind_result (py_float x) (\<lambda>u. bind_result (py_float y) (\<lambda>v. fl_result (u + v)))"

text \<open>
  \<^verbatim>\<open>abs(x)\<close> keeps the type of its argument and is exact.
\<close>

fun py_abs :: "pynum \<Rightarrow> pynum" where
  "py_abs (PInt i) = PInt \<bar>i\<bar>"
| "py_abs (PFloat x) = PFloat \<bar>x\<bar>"

text \<open>
  \<^verbatim>\<open>x % m\<close>. On two ints it is the remainder of the floored division, which has the
  sign of the divisor: the \<open>mod\<close> of HOL's integers. On floats CPython computes the
  remainder of the truncated division with C's \<^verbatim>\<open>fmod\<close>, which is exact and has the sign
  of \<open>x\<close>, and then adds the divisor when the remainder is not zero and its sign differs
  from the divisor's; that addition is a float addition and rounds. A zero divisor raises
  \<^verbatim>\<open>ZeroDivisionError\<close>.
\<close>

definition trunc :: "real \<Rightarrow> int" where
  "trunc q = (if 0 \<le> q then \<lfloor>q\<rfloor> else - \<lfloor>- q\<rfloor>)"

definition fmod :: "real \<Rightarrow> real \<Rightarrow> real" where
  "fmod x m = x - m * of_int (trunc (x / m))"

fun py_mod :: "pynum \<Rightarrow> pynum \<Rightarrow> error + pynum" where
  "py_mod (PInt i) (PInt j) =
     (if j = 0 then Inl ZeroDivisionError else Inr (PInt (i mod j)))"
| "py_mod x m =
     bind_result (py_float x) (\<lambda>u. bind_result (py_float m) (\<lambda>w.
       if w = 0 then Inl ZeroDivisionError
       else let r = fmod u w
            in if r \<noteq> 0 \<and> (w < 0) \<noteq> (r < 0) then fl_result (r + w) else Inr (PFloat r)))"

text \<open>
  \<^verbatim>\<open>x < y\<close> and \<^verbatim>\<open>x == y\<close> compare the values exactly, whatever the two types.
  \<^verbatim>\<open>min(x, y)\<close> returns its first argument unless the second is smaller.
\<close>

definition py_lt :: "pynum \<Rightarrow> pynum \<Rightarrow> bool" where
  "py_lt x y = (py_val x < py_val y)"

definition py_eq :: "pynum \<Rightarrow> pynum \<Rightarrow> bool" where
  "py_eq x y = (py_val x = py_val y)"

definition py_min :: "pynum \<Rightarrow> pynum \<Rightarrow> pynum" where
  "py_min x y = (if py_lt y x then y else x)"

subsection \<open>The function\<close>

text \<open>
  The third version. \<^verbatim>\<open>360 - d\<close> is evaluated before \<^verbatim>\<open>min\<close> is called.
\<close>

definition angle_distance_v3 :: "pynum \<Rightarrow> pynum \<Rightarrow> error + pynum" where
  "angle_distance_v3 a b =
     bind_result (py_sub b a) (\<lambda>s.
       let d = py_abs s
       in bind_result (py_sub (PInt 360) d) (\<lambda>t. Inr (py_min t d)))"

text \<open>
  The final version. Python evaluates \<^verbatim>\<open>b % 360\<close> before \<^verbatim>\<open>a % 360\<close>; an error of
  any step ends the call.
\<close>

definition angle_distance :: "pynum \<Rightarrow> pynum \<Rightarrow> error + pynum" where
  "angle_distance a b =
     bind_result (py_mod b (PInt 360)) (\<lambda>bn.
     bind_result (py_mod a (PInt 360)) (\<lambda>an.
     bind_result (py_sub bn an) (\<lambda>s.
       let d = py_abs s
       in bind_result (py_sub (PInt 360) d) (\<lambda>t. Inr (py_min t d)))))"

subsection \<open>The specification's reference definition\<close>

text \<open>
  The specification describes the result over the reals: reduce each input modulo 360
  into \<open>[0, 360)\<close>, take the absolute difference \<open>d\<close> of the two normalised values, and
  return \<open>min (360 - d) d\<close>. The reduction of \<open>x\<close> is 360 times the fractional part of
  \<open>x / 360\<close>.
\<close>

definition normalize_spec :: "real \<Rightarrow> real" where
  "normalize_spec x = 360 * frac (x / 360)"

definition angle_distance_spec :: "real \<Rightarrow> real \<Rightarrow> real" where
  "angle_distance_spec a b =
     (let d = \<bar>normalize_spec a - normalize_spec b\<bar> in min (360 - d) d)"

text \<open>
  The same definition evaluated in double arithmetic: the result of each step (the two
  normalisations, the difference, and \<open>360 - d\<close>) is rounded to the nearest double.
\<close>

definition angle_distance_spec_rounded :: "real \<Rightarrow> real \<Rightarrow> real" where
  "angle_distance_spec_rounded a b =
     (let na = fl_round (normalize_spec a); nb = fl_round (normalize_spec b);
          d = \<bar>fl_round (na - nb)\<bar>
      in min (fl_round (360 - d)) d)"

subsection \<open>Auxiliary notions\<close>

text \<open>
  The exact remainder modulo 360 in the form of Python's floored division, the result
  of the final version in exact real arithmetic, and the multiples of a power of two.
  They serve the proofs.
\<close>

definition mod360 :: "real \<Rightarrow> real" where
  "mod360 x = x - 360 * of_int \<lfloor>x / 360\<rfloor>"

definition angle_distance_real :: "real \<Rightarrow> real \<Rightarrow> real" where
  "angle_distance_real a b = (let d = \<bar>mod360 b - mod360 a\<bar> in min (360 - d) d)"

definition on_grid :: "int \<Rightarrow> real \<Rightarrow> bool" where
  "on_grid p x = (\<exists>n::int. x = of_int n * 2 powi p)"

section \<open>Supporting lemmas\<close>

subsection \<open>Rounding\<close>

lemma round_half_even_of_int: "round_half_even (of_int n) = n"
  by (simp add: round_half_even_def)

lemma round_half_even_ge_floor: "\<lfloor>q\<rfloor> \<le> round_half_even q"
  by (simp add: round_half_even_def Let_def)

lemma round_half_even_le_floor: "round_half_even q \<le> \<lfloor>q\<rfloor> + 1"
  by (simp add: round_half_even_def Let_def)

lemma round_half_even_mono:
  assumes "q \<le> q'"
  shows "round_half_even q \<le> round_half_even q'"
proof (cases "\<lfloor>q\<rfloor> = \<lfloor>q'\<rfloor>")
  case True
  then show ?thesis
    using assms by (simp add: round_half_even_def Let_def)
next
  case False
  then have "\<lfloor>q\<rfloor> + 1 \<le> \<lfloor>q'\<rfloor>"
    using floor_mono [OF assms] by linarith
  then show ?thesis
    using round_half_even_le_floor [of q] round_half_even_ge_floor [of q'] by linarith
qed

lemma round_half_even_minus: "round_half_even (- q) = - round_half_even q"
proof (cases "q = of_int \<lfloor>q\<rfloor>")
  case True
  then obtain n where "q = of_int n" ..
  then show ?thesis
    by (simp add: round_half_even_of_int flip: of_int_minus)
next
  case False
  then have "\<lfloor>- q\<rfloor> = - \<lfloor>q\<rfloor> - 1"
    by (simp add: floor_minus ceiling_altdef)
  then show ?thesis
    using False by (auto simp add: round_half_even_def Let_def)
qed

lemma log2_bounds:
  assumes "x \<noteq> 0"
  shows "2 powi \<lfloor>log 2 \<bar>x\<bar>\<rfloor> \<le> \<bar>x\<bar>" and "\<bar>x\<bar> < 2 powi (\<lfloor>log 2 \<bar>x\<bar>\<rfloor> + 1)"
proof -
  have "0 < \<bar>x\<bar>" using assms by simp
  then have "2 powr \<lfloor>log 2 \<bar>x\<bar>\<rfloor> \<le> \<bar>x\<bar> \<and> \<bar>x\<bar> < 2 powr (\<lfloor>log 2 \<bar>x\<bar>\<rfloor> + 1)"
    using floor_log_eq_powr_iff [of "\<bar>x\<bar>" 2 "\<lfloor>log 2 \<bar>x\<bar>\<rfloor>"] by simp
  then show "2 powi \<lfloor>log 2 \<bar>x\<bar>\<rfloor> \<le> \<bar>x\<bar>" and "\<bar>x\<bar> < 2 powi (\<lfloor>log 2 \<bar>x\<bar>\<rfloor> + 1)"
    using powr_real_of_int' [of 2 "\<lfloor>log 2 \<bar>x\<bar>\<rfloor>"] powr_real_of_int' [of 2 "\<lfloor>log 2 \<bar>x\<bar>\<rfloor> + 1"]
    by simp_all
qed

lemma floor_log2_eqI:
  assumes "2 powi e \<le> \<bar>x\<bar>" "\<bar>x\<bar> < 2 powi (e + 1)"
  shows "\<lfloor>log 2 \<bar>x\<bar>\<rfloor> = e"
proof -
  have "0 < \<bar>x\<bar>"
    using assms(1) zero_less_power_int [of "2::real" e] by linarith
  moreover have "2 powr e \<le> \<bar>x\<bar> \<and> \<bar>x\<bar> < 2 powr (e + 1)"
    using assms powr_real_of_int' [of 2 e] powr_real_of_int' [of 2 "e + 1"] by simp
  ultimately show ?thesis
    using floor_log_eq_powr_iff [of "\<bar>x\<bar>" 2 e] by simp
qed

lemma fl_exponent_eqI:
  "2 powi e \<le> \<bar>x\<bar> \<Longrightarrow> \<bar>x\<bar> < 2 powi (e + 1) \<Longrightarrow> - 1022 \<le> e \<Longrightarrow> fl_exponent x = e"
  by (simp add: fl_exponent_def floor_log2_eqI)

lemma fl_exponent_minus: "fl_exponent (- x) = fl_exponent x"
  by (simp add: fl_exponent_def)

lemma fl_ulp_pos: "0 < fl_ulp x"
  by (simp add: fl_ulp_def)

lemma fl_round_minus: "fl_round (- x) = - fl_round x"
  by (simp add: fl_round_def fl_ulp_def fl_exponent_minus round_half_even_minus)

lemma fl_round_0: "fl_round 0 = 0"
  by (simp add: fl_round_def)

lemma grid_mono:
  assumes "0 < u" "x \<le> y"
  shows "of_int (round_half_even (x / u)) * u \<le> of_int (round_half_even (y / u)) * (u::real)"
proof -
  have "x / u \<le> y / u"
    using assms by (simp add: divide_right_mono)
  then have "round_half_even (x / u) \<le> round_half_even (y / u)"
    by (rule round_half_even_mono)
  then show ?thesis
    using assms(1) by (simp add: mult_right_mono)
qed

lemma grid_fix:
  assumes "0 < u" "x = of_int m * (u::real)"
  shows "of_int (round_half_even (x / u)) * u = x"
  using assms by (simp add: round_half_even_of_int)

lemma powi_split:
  assumes "0 \<le> j"
  shows "(2::real) powi (j + e) = of_int (2 ^ nat j) * 2 powi e"
proof -
  have "(2::real) powi (j + e) = 2 powi j * 2 powi e"
    by (simp add: power_int_add)
  moreover have "(2::real) powi j = 2 ^ nat j"
    using assms by (simp add: power_int_def)
  ultimately show ?thesis
    by simp
qed

lemma powi_less_cancel:
  assumes "(2::real) powi a < 2 powi b"
  shows "a < b"
proof (rule ccontr)
  assume "\<not> a < b"
  then have "(2::real) powi b \<le> 2 powi a"
    by (intro power_int_increasing) simp_all
  then show False
    using assms by linarith
qed

lemma fl_round_dyadic:
  assumes "\<bar>n\<bar> < 2 ^ 53" "- 1074 \<le> k"
  shows "fl_round (of_int n * 2 powi k) = of_int n * 2 powi k"
proof (cases "n = 0")
  case True
  then show ?thesis by (simp add: fl_round_0)
next
  case False
  let ?x = "real_of_int n * 2 powi k"
  let ?L = "\<lfloor>log 2 \<bar>?x\<bar>\<rfloor>"
  have x0: "?x \<noteq> 0"
    using False by simp
  have "\<bar>?x\<bar> = of_int \<bar>n\<bar> * 2 powi k"
    by (simp add: abs_mult)
  also have "\<dots> < 2 ^ 53 * 2 powi k"
  proof -
    have "real_of_int \<bar>n\<bar> < 2 ^ 53"
      using assms(1) by (metis of_int_less_iff of_int_numeral of_int_power)
    then show ?thesis by simp
  qed
  also have "\<dots> = 2 powi (53 + k)"
    by (simp add: power_int_add)
  finally have "\<bar>?x\<bar> < 2 powi (53 + k)" .
  then have "2 powi ?L < (2::real) powi (53 + k)"
    using log2_bounds(1) [OF x0] by linarith
  then have "?L < 53 + k"
    by (rule powi_less_cancel)
  then have le: "fl_exponent ?x - 52 \<le> k"
    using assms(2) by (simp add: fl_exponent_def)
  define j where "j = k - (fl_exponent ?x - 52)"
  have "(2::real) powi k = 2 powi (j + (fl_exponent ?x - 52))"
    by (simp add: j_def)
  also have "\<dots> = of_int (2 ^ nat j) * fl_ulp ?x"
    unfolding fl_ulp_def using le by (intro powi_split) (simp add: j_def)
  finally have "?x = of_int (n * 2 ^ nat j) * fl_ulp ?x"
    by simp
  then have "of_int (round_half_even (?x / fl_ulp ?x)) * fl_ulp ?x = ?x"
    by (rule grid_fix [OF fl_ulp_pos])
  then show ?thesis
    using x0 by (simp only: fl_round_def if_False)
qed

lemma fl_round_of_int:
  assumes "\<bar>n\<bar> < 2 ^ 53"
  shows "fl_round (of_int n) = of_int n"
  using fl_round_dyadic [OF assms, of 0] by simp

lemma fl_round_nonneg:
  assumes "0 \<le> x"
  shows "0 \<le> fl_round x"
proof -
  have "0 \<le> x / fl_ulp x"
    using assms fl_ulp_pos [of x] by simp
  then have "round_half_even 0 \<le> round_half_even (x / fl_ulp x)"
    by (rule round_half_even_mono)
  then have "0 \<le> round_half_even (x / fl_ulp x)"
    using round_half_even_of_int [of 0] by simp
  then show ?thesis
    using fl_ulp_pos [of x] by (simp add: fl_round_def)
qed

lemma fl_round_mono_pos:
  assumes "0 < x" "x \<le> y"
  shows "fl_round x \<le> fl_round y"
proof -
  have x0: "x \<noteq> 0" and y0: "y \<noteq> 0"
    using assms by simp_all
  have "log 2 \<bar>x\<bar> \<le> log 2 \<bar>y\<bar>"
    using assms by simp
  then have L: "\<lfloor>log 2 \<bar>x\<bar>\<rfloor> \<le> \<lfloor>log 2 \<bar>y\<bar>\<rfloor>"
    by (rule floor_mono)
  then have E: "fl_exponent x \<le> fl_exponent y"
    by (simp add: fl_exponent_def)
  show ?thesis
  proof (cases "fl_exponent x = fl_exponent y")
    case True
    then have "fl_ulp x = fl_ulp y"
      by (simp add: fl_ulp_def)
    then show ?thesis
      using grid_mono [OF fl_ulp_pos [of y] assms(2)] x0 y0 by (simp add: fl_round_def)
  next
    case False
    then have lt: "fl_exponent x < fl_exponent y"
      using E by simp
    then have Ey: "fl_exponent y = \<lfloor>log 2 \<bar>y\<bar>\<rfloor>"
      by (simp add: fl_exponent_def max_def split: if_splits)
    define B :: real where "B = 2 powi fl_exponent y"
    have By: "B \<le> y"
      using log2_bounds(1) [OF y0] assms by (simp add: B_def Ey)
    have "x < 2 powi (\<lfloor>log 2 \<bar>x\<bar>\<rfloor> + 1)"
      using log2_bounds(2) [OF x0] assms by simp
    also have "\<dots> \<le> 2 powi fl_exponent y"
      using lt by (intro power_int_increasing) (simp_all add: fl_exponent_def)
    finally have xB: "x \<le> B"
      by (simp add: B_def)
    define j where "j = fl_exponent y - fl_exponent x + 52"
    have "B = 2 powi (j + (fl_exponent x - 52))"
      by (simp add: B_def j_def)
    also have "\<dots> = of_int (2 ^ nat j) * fl_ulp x"
      unfolding fl_ulp_def using lt by (intro powi_split) (simp add: j_def)
    finally have Bx: "B = of_int (2 ^ nat j) * fl_ulp x" .
    have "B = 2 powi (52 + (fl_exponent y - 52))"
      by (simp add: B_def)
    also have "\<dots> = of_int (2 ^ nat 52) * fl_ulp y"
      unfolding fl_ulp_def by (intro powi_split) simp
    finally have By': "B = of_int (2 ^ nat 52) * fl_ulp y" .
    have "fl_round x \<le> of_int (round_half_even (B / fl_ulp x)) * fl_ulp x"
      using grid_mono [OF fl_ulp_pos [of x] xB] x0 by (simp only: fl_round_def if_False)
    also have "\<dots> = B"
      by (rule grid_fix [OF fl_ulp_pos Bx])
    also have "\<dots> = of_int (round_half_even (B / fl_ulp y)) * fl_ulp y"
      by (rule grid_fix [OF fl_ulp_pos By', symmetric])
    also have "\<dots> \<le> fl_round y"
      using grid_mono [OF fl_ulp_pos [of y] By] y0 by (simp only: fl_round_def if_False)
    finally show ?thesis .
  qed
qed

lemma fl_round_mono:
  assumes "x \<le> y"
  shows "fl_round x \<le> fl_round y"
proof -
  consider "0 < x" | "x \<le> 0" "0 \<le> y" | "y < 0"
    using assms by linarith
  then show ?thesis
  proof cases
    case 1
    then show ?thesis using assms by (rule fl_round_mono_pos)
  next
    case 2
    have "0 \<le> fl_round (- x)" "0 \<le> fl_round y"
      using 2 by (simp_all add: fl_round_nonneg)
    then show ?thesis
      by (simp add: fl_round_minus)
  next
    case 3
    then have "fl_round (- y) \<le> fl_round (- x)"
      using assms by (intro fl_round_mono_pos) simp_all
    then show ?thesis
      by (simp add: fl_round_minus)
  qed
qed

subsection \<open>Evaluating the operations\<close>

lemma bind_result_Inr [simp]: "bind_result (Inr v) f = f v"
  by (simp add: bind_result_def)

lemma bind_result_Inl [simp]: "bind_result (Inl e) f = Inl e"
  by (simp add: bind_result_def)

lemma fl_round_eval:
  assumes "2 powi e \<le> \<bar>x\<bar>" "\<bar>x\<bar> < 2 powi (e + 1)" "- 1022 \<le> e"
  shows "fl_round x = of_int (round_half_even (x / 2 powi (e - 52))) * 2 powi (e - 52)"
proof -
  have "0 < (2::real) powi e"
    by simp
  then have "0 < \<bar>x\<bar>"
    using assms(1) by linarith
  then have "x \<noteq> 0"
    by simp
  then show ?thesis
    by (simp add: fl_round_def fl_ulp_def fl_exponent_eqI [OF assms])
qed

lemma fl_max_ge: "2 ^ 53 \<le> fl_max"
  by (simp add: fl_max_def)

lemma fl_round_le:
  assumes "z \<le> of_int n" "\<bar>n\<bar> < 2 ^ 53"
  shows "fl_round z \<le> of_int n"
  using fl_round_mono [OF assms(1)] fl_round_of_int [OF assms(2)] by simp

lemma fl_round_ge:
  assumes "of_int n \<le> z" "\<bar>n\<bar> < 2 ^ 53"
  shows "of_int n \<le> fl_round z"
  using fl_round_mono [OF assms(1)] fl_round_of_int [OF assms(2)] by simp

lemma fl_round_abs_le_360:
  assumes "\<bar>z\<bar> \<le> 360"
  shows "\<bar>fl_round z\<bar> \<le> 360"
proof -
  have "z \<le> 360" "- 360 \<le> z"
    using assms by linarith+
  then have "fl_round z \<le> 360" "- 360 \<le> fl_round z"
    using fl_round_le [of z 360] fl_round_ge [of "- 360" z] by simp_all
  then show ?thesis
    by linarith
qed

lemma fl_max_ge_360: "360 \<le> fl_max"
  by (simp add: fl_max_def)

lemma fl_result_small:
  assumes "\<bar>z\<bar> \<le> 360"
  shows "fl_result z = Inr (PFloat (fl_round z))"
proof -
  have "\<bar>fl_round z\<bar> \<le> fl_max"
    using fl_round_abs_le_360 [OF assms] fl_max_ge_360 by linarith
  then show ?thesis
    by (simp add: fl_result_def)
qed

lemma py_float_small:
  assumes "\<bar>py_val x\<bar> \<le> 360"
  shows "py_float x = Inr (py_val x)"
proof (cases x)
  case (PInt i)
  then have "\<bar>i\<bar> \<le> 360"
    using assms by simp
  then have "fl_round (of_int i) = of_int i"
    by (intro fl_round_of_int) simp
  moreover have "\<bar>real_of_int i\<bar> \<le> fl_max"
    using assms PInt fl_max_ge_360 by simp
  ultimately show ?thesis
    using PInt by simp
next
  case (PFloat y)
  then show ?thesis by simp
qed

lemma py_sub_small:
  assumes "\<bar>py_val x\<bar> \<le> 360" "\<bar>py_val y\<bar> \<le> 360"
    "\<bar>py_val x - py_val y\<bar> \<le> 360"
  shows "\<exists>s. py_sub x y = Inr s \<and> is_int s = (is_int x \<and> is_int y) \<and>
    py_val s = (if is_int x \<and> is_int y then py_val x - py_val y
                else fl_round (py_val x - py_val y))"
  using assms py_float_small [OF assms(1)] py_float_small [OF assms(2)]
  by (cases x; cases y) (simp_all add: fl_result_small)

subsection \<open>Normalisation by \<^verbatim>\<open>% 360\<close>\<close>

lemma mod360_range: "0 \<le> mod360 x \<and> mod360 x < 360"
proof -
  have "of_int \<lfloor>x / 360\<rfloor> \<le> x / 360" "x / 360 < of_int \<lfloor>x / 360\<rfloor> + 1"
    by linarith+
  then show ?thesis
    unfolding mod360_def by (simp add: field_simps)
qed

lemma mod360_id: "0 \<le> x \<Longrightarrow> x < 360 \<Longrightarrow> mod360 x = x"
proof -
  assume "0 \<le> x" "x < 360"
  then have "\<lfloor>x / 360\<rfloor> = 0"
    by (simp add: floor_eq_iff)
  then show ?thesis
    by (simp add: mod360_def)
qed

lemma py_abs_val: "py_val (py_abs x) = \<bar>py_val x\<bar>"
  by (cases x) simp_all

lemma py_abs_int: "is_int (py_abs x) = is_int x"
  by (cases x) simp_all

lemma py_min_val: "py_val (py_min x y) = min (py_val x) (py_val y)"
  by (simp add: py_min_def py_lt_def min_def)

lemma py_min_int: "is_int x = is_int y \<Longrightarrow> is_int (py_min x y) = is_int x"
  by (simp add: py_min_def)

lemma pynum_eq_iff: "x = y \<longleftrightarrow> py_val x = py_val y \<and> is_int x = is_int y"
  by (cases x; cases y) simp_all

lemma fmod_360_nonneg: "0 \<le> x \<Longrightarrow> fmod x 360 = mod360 x"
  by (simp add: fmod_def trunc_def mod360_def)

lemma fmod_360_neg: "x < 0 \<Longrightarrow> fmod x 360 = - mod360 (- x)"
  by (simp add: fmod_def trunc_def mod360_def)


lemma py_float_360: "py_float (PInt 360) = Inr 360"
  using py_float_small [of "PInt 360"] by simp

lemma py_mod_360_float_unfold:
  "py_mod (PFloat x) (PInt 360) =
     (let r = fmod x 360 in if r < 0 then fl_result (r + 360) else Inr (PFloat r))"
proof -
  have "fl_round 360 = 360"
    using fl_round_of_int [of 360] by simp
  then show ?thesis
    using fl_max_ge_360 by (auto simp add: Let_def)
qed

lemma py_mod_360_float_nonneg:
  assumes "0 \<le> x"
  shows "py_mod (PFloat x) (PInt 360) = Inr (PFloat (mod360 x))"
  using assms mod360_range [of x]
  by (simp add: py_mod_360_float_unfold fmod_360_nonneg Let_def del: py_mod.simps)

lemma py_mod_360_float_neg:
  assumes "x < 0"
  shows "py_mod (PFloat x) (PInt 360) =
    Inr (PFloat (if mod360 (- x) = 0 then 0 else fl_round (360 - mod360 (- x))))"
proof -
  have "\<bar>360 - mod360 (- x)\<bar> \<le> 360"
    using mod360_range [of "- x"] by linarith
  then have "fl_result (360 - mod360 (- x)) = Inr (PFloat (fl_round (360 - mod360 (- x))))"
    by (rule fl_result_small)
  then show ?thesis
    using assms mod360_range [of "- x"]
    by (simp add: py_mod_360_float_unfold fmod_360_neg Let_def del: py_mod.simps)
qed

lemma py_mod_360_float:
  "\<exists>y. py_mod (PFloat x) (PInt 360) = Inr (PFloat y) \<and> 0 \<le> y \<and> y \<le> 360"
proof (cases "0 \<le> x")
  case True
  then show ?thesis
    using py_mod_360_float_nonneg [of x] mod360_range [of x] by simp
next
  case False
  then have neg: "x < 0" by simp
  have "0 \<le> 360 - mod360 (- x)" "360 - mod360 (- x) \<le> 360"
    using mod360_range [of "- x"] by linarith+
  then have "0 \<le> fl_round (360 - mod360 (- x))" "fl_round (360 - mod360 (- x)) \<le> 360"
    using fl_round_nonneg fl_round_le [of "360 - mod360 (- x)" 360] by simp_all
  then show ?thesis
    using py_mod_360_float_neg [OF neg] by simp
qed

lemma py_mod_360:
  "\<exists>r. py_mod a (PInt 360) = Inr r \<and> 0 \<le> py_val r \<and> py_val r \<le> 360 \<and> is_int r = is_int a"
proof (cases a)
  case (PInt i)
  have "0 \<le> i mod 360" "i mod 360 \<le> 360"
    by simp_all
  then show ?thesis
    using PInt by simp
next
  case (PFloat x)
  then show ?thesis
    using py_mod_360_float [of x] by auto
qed

lemma angle_distance_v3_small:
  assumes "0 \<le> py_val x" "py_val x \<le> 360" "0 \<le> py_val y" "py_val y \<le> 360"
  shows "\<exists>r. angle_distance_v3 x y = Inr r \<and> 0 \<le> py_val r \<and> py_val r \<le> 180 \<and>
    is_int r = (is_int x \<and> is_int y)"
proof -
  have diff: "\<bar>py_val y - py_val x\<bar> \<le> 360"
    using assms by linarith
  obtain s where s: "py_sub y x = Inr s" "is_int s = (is_int y \<and> is_int x)"
    "py_val s = (if is_int y \<and> is_int x then py_val y - py_val x
                 else fl_round (py_val y - py_val x))"
    using py_sub_small [of y x] assms diff by force
  have s360: "\<bar>py_val s\<bar> \<le> 360"
    using s(3) diff fl_round_abs_le_360 [OF diff] by (simp split: if_splits)
  define d where "d = py_abs s"
  have d: "py_val d = \<bar>py_val s\<bar>" "is_int d = is_int s"
    by (simp_all add: d_def py_abs_val py_abs_int)
  obtain t where t: "py_sub (PInt 360) d = Inr t" "is_int t = is_int d"
    "py_val t = (if is_int d then 360 - py_val d else fl_round (360 - py_val d))"
    using py_sub_small [of "PInt 360" d] d(1) s360 by force
  have t0: "0 \<le> py_val t"
    using t(3) d(1) s360 fl_round_nonneg [of "360 - py_val d"] by (simp split: if_splits)
  have t180: "py_val t \<le> 180" if "180 < py_val d"
    using that t(3) fl_round_le [of "360 - py_val d" 180] by (simp split: if_splits)
  have "angle_distance_v3 x y = Inr (py_min t d)"
    by (simp add: angle_distance_v3_def s(1) t(1) flip: d_def)
  moreover have "0 \<le> py_val (py_min t d)"
    using t0 d(1) by (simp add: py_min_val)
  moreover have "py_val (py_min t d) \<le> 180"
    using t180 by (cases "180 < py_val d") (simp_all add: py_min_val min_def)
  moreover have "is_int (py_min t d) = (is_int x \<and> is_int y)"
    using t(2) d(2) s(2) by (auto simp add: py_min_int)
  ultimately show ?thesis
    by blast
qed

lemma angle_distance_via_v3:
  assumes "py_mod b (PInt 360) = Inr bn" "py_mod a (PInt 360) = Inr an"
  shows "angle_distance a b = angle_distance_v3 an bn"
  by (simp add: angle_distance_def angle_distance_v3_def assms)

subsection \<open>The third version on normalised arguments\<close>

lemma py_sub_swap:
  "(\<exists>e. py_sub x y = Inl e \<and> py_sub y x = Inl e) \<or>
   (\<exists>s s'. py_sub x y = Inr s \<and> py_sub y x = Inr s' \<and> py_abs s = py_abs s')"
proof -
  have fl: "(\<exists>e. fl_result (u - v) = Inl e \<and> fl_result (v - u) = Inl e) \<or>
    (\<exists>s s'. fl_result (u - v) = Inr s \<and> fl_result (v - u) = Inr s' \<and> py_abs s = py_abs s')"
    for u v
    using fl_round_minus [of "u - v"] by (simp add: fl_result_def)
  show ?thesis
  proof (cases x; cases y)
    fix i j assume "x = PInt i" "y = PInt j"
    then show ?thesis by (simp add: abs_minus_commute)
  next
    fix i v assume "x = PInt i" "y = PFloat v"
    then show ?thesis
      using fl by (cases "py_float (PInt i)") (simp_all del: py_float.simps(1))
  next
    fix u j assume "x = PFloat u" "y = PInt j"
    then show ?thesis
      using fl by (cases "py_float (PInt j)") (simp_all del: py_float.simps(1))
  next
    fix u v assume "x = PFloat u" "y = PFloat v"
    then show ?thesis
      using fl by simp
  qed
qed

lemma angle_distance_v3_sym: "angle_distance_v3 x y = angle_distance_v3 y x"
  using py_sub_swap [of x y] by (auto simp add: angle_distance_v3_def)

lemma angle_distance_v3_same:
  "angle_distance_v3 r r = Inr (if is_int r then PInt 0 else PFloat 0)"
proof (cases r)
  case (PInt i)
  then show ?thesis
    by (simp add: angle_distance_v3_def py_min_def py_lt_def)
next
  case (PFloat y)
  have "fl_round 360 = 360"
    using fl_round_of_int [of 360] by simp
  then show ?thesis
    using PFloat fl_max_ge_360
    by (simp add: angle_distance_v3_def fl_result_def fl_round_0 py_min_def py_lt_def)
qed

lemma py_mod_360_canonical:
  assumes "0 \<le> py_val a" "py_val a < 360"
  shows "py_mod a (PInt 360) = Inr a"
proof (cases a)
  case (PInt i)
  then show ?thesis using assms by simp
next
  case (PFloat x)
  then show ?thesis
    using assms by (simp add: py_mod_360_float_nonneg mod360_id del: py_mod.simps)
qed

lemma fl_result_of_int:
  assumes "\<bar>n\<bar> < 2 ^ 53"
  shows "fl_result (of_int n) = Inr (PFloat (of_int n))"
proof -
  have "real_of_int \<bar>n\<bar> < real_of_int (2 ^ 53)"
    using assms by (simp only: of_int_less_iff)
  then have "\<bar>real_of_int n\<bar> < 2 ^ 53"
    by simp
  then have "\<bar>real_of_int n\<bar> \<le> fl_max"
    using fl_max_ge by linarith
  then show ?thesis
    by (simp add: fl_result_def fl_round_of_int [OF assms])
qed

lemma fl_round_numeral:
  assumes "(numeral k :: int) < 9007199254740992"
  shows "fl_round (numeral k) = numeral k"
  using fl_round_of_int [of "numeral k"] assms by simp

lemma fl_result_numeral:
  assumes "(numeral k :: int) < 9007199254740992"
  shows "fl_result (numeral k) = Inr (PFloat (numeral k))"
  using fl_result_of_int [of "numeral k"] assms by simp

lemma py_lt_PInt: "py_lt (PInt i) (PInt j) \<longleftrightarrow> i < j"
  by (simp add: py_lt_def)

lemma angle_distance_PInt:
  "angle_distance (PInt i) (PInt j) =
     Inr (PInt (let d = \<bar>j mod 360 - i mod 360\<bar> in min (360 - d) d))"
  by (auto simp add: angle_distance_def Let_def py_min_def py_lt_PInt min_def)

lemma fl_round_1: "fl_round 1 = 1"
  using fl_round_of_int [of 1] by simp

lemma fl_round_358_5: "fl_round (717 / 2) = 717 / 2"
  using fl_round_dyadic [of 717 "- 1"] by simp

lemma fl_round_1_5: "fl_round (3 / 2) = 3 / 2"
  using fl_round_dyadic [of 3 "- 1"] by simp

subsection \<open>Exact real arithmetic and the reference definition\<close>

lemma mod360_shift: "mod360 (x + 360 * of_int k) = mod360 x"
proof -
  have "(x + 360 * of_int k) / 360 = x / 360 + of_int k"
    by (simp add: add_divide_distrib)
  then have "\<lfloor>(x + 360 * of_int k) / 360\<rfloor> = \<lfloor>x / 360\<rfloor> + k"
    by (simp only: floor_add_int)
  then show ?thesis
    unfolding mod360_def by (simp add: algebra_simps)
qed

lemma mod360_of_int: "mod360 (of_int i) = of_int (i mod 360)"
proof -
  have "\<lfloor>real_of_int i / 360\<rfloor> = i div 360"
    using floor_divide_of_int_eq [of i 360, where ?'a = real] by simp
  moreover have "i mod 360 = i - 360 * (i div 360)"
    by (simp add: minus_mult_div_eq_mod)
  ultimately show ?thesis
    by (simp add: mod360_def)
qed

lemma mod360_frac: "mod360 x = normalize_spec x"
  by (simp add: mod360_def normalize_spec_def frac_def algebra_simps)

lemma fold_shift:
  fixes D D' :: real
  assumes "\<bar>D\<bar> < 360" "\<bar>D'\<bar> < 360" "D' = D + 360 * of_int m"
  shows "min (360 - \<bar>D'\<bar>) \<bar>D'\<bar> = min (360 - \<bar>D\<bar>) \<bar>D\<bar>"
proof -
  have "real_of_int m < 2" "- 2 < real_of_int m"
    using assms by linarith+
  then have "m < 2" "- 2 < m"
    by linarith+
  then consider "m = - 1" | "m = 0" | "m = 1"
    by linarith
  then show ?thesis
    using assms by cases auto
qed

lemma mod360_diff_bound: "\<bar>mod360 y - mod360 x\<bar> < 360"
  using mod360_range [of x] mod360_range [of y] by linarith

lemma mod360_decomp: "x = mod360 x + 360 * of_int \<lfloor>x / 360\<rfloor>"
  by (simp add: mod360_def)

lemma mod360_unique:
  assumes "0 \<le> r" "r < 360" "x = r + 360 * of_int k"
  shows "mod360 x = r"
proof -
  have "mod360 x = mod360 r"
    using assms(3) mod360_shift [of r k] by simp
  then show ?thesis
    using assms(1,2) by (simp add: mod360_id)
qed

lemma angle_distance_real_rot:
  "angle_distance_real (a + c) (b + c) = angle_distance_real a b"
proof -
  let ?m = "(\<lfloor>b / 360\<rfloor> - \<lfloor>(b + c) / 360\<rfloor>)
    - (\<lfloor>a / 360\<rfloor> - \<lfloor>(a + c) / 360\<rfloor>)"
  have "mod360 (b + c) - mod360 (a + c) = (mod360 b - mod360 a) + 360 * of_int ?m"
    by (simp add: mod360_def algebra_simps)
  then show ?thesis
    unfolding angle_distance_real_def Let_def
    using fold_shift [OF mod360_diff_bound [of b a] mod360_diff_bound [of "b + c" "a + c"]]
    by blast
qed

lemma angle_distance_real_antipodal: "angle_distance_real a (a + 180) = 180"
proof -
  have "angle_distance_real a (a + 180) = angle_distance_real (0 + a) (180 + a)"
    by (simp add: add.commute)
  also have "\<dots> = angle_distance_real 0 180"
    by (rule angle_distance_real_rot)
  also have "\<dots> = 180"
    by (simp add: angle_distance_real_def mod360_def)
  finally show ?thesis .
qed

lemma angle_distance_real_spec: "angle_distance_real a b = angle_distance_spec a b"
  by (simp add: angle_distance_real_def angle_distance_spec_def mod360_frac abs_minus_commute)

lemma normalize_spec_range: "0 \<le> normalize_spec x \<and> normalize_spec x < 360"
  using mod360_range [of x] by (simp add: mod360_frac)

lemma normalize_spec_congruent: "\<exists>k. x = normalize_spec x + 360 * of_int k"
  using mod360_decomp [of x] unfolding mod360_frac by blast

lemma normalize_spec_unique:
  "0 \<le> r \<Longrightarrow> r < 360 \<Longrightarrow> x = r + 360 * of_int k \<Longrightarrow> normalize_spec x = r"
  using mod360_unique [of r x k] by (simp add: mod360_frac)

lemma angle_distance_PInt_real:
  "real_of_int (let d = \<bar>j mod 360 - i mod 360\<bar> in min (360 - d) d) =
     angle_distance_real (of_int i) (of_int j)"
  by (simp only: angle_distance_real_def mod360_of_int Let_def of_int_min of_int_diff
      of_int_abs of_int_numeral)

lemma angle_distance_PInt_rot:
  "angle_distance (PInt (i + c)) (PInt (j + c)) = angle_distance (PInt i) (PInt j)"
proof -
  let ?A = "let d = \<bar>(j + c) mod 360 - (i + c) mod 360\<bar> in min (360 - d) d"
  let ?B = "let d = \<bar>j mod 360 - i mod 360\<bar> in min (360 - d) d"
  have "angle_distance_real (of_int (i + c)) (of_int (j + c)) =
      angle_distance_real (of_int i) (of_int j)"
    using angle_distance_real_rot [of "of_int i" "of_int c" "of_int j"]
    by (simp only: of_int_add)
  then have "real_of_int ?A = real_of_int ?B"
    by (simp only: angle_distance_PInt_real)
  then have "?A = ?B"
    by (simp only: of_int_eq_iff)
  then show ?thesis
    by (simp only: angle_distance_PInt)
qed

subsection \<open>Doubles\<close>

lemma is_double_dyadic:
  assumes "\<bar>n\<bar> < 2 ^ 53" "- 1074 \<le> k" "k \<le> 971"
  shows "is_double (of_int n * 2 powi k)"
proof -
  have "\<bar>n\<bar> \<le> 2 ^ 53 - 1"
    using assms(1) by linarith
  then have "real_of_int \<bar>n\<bar> \<le> real_of_int (2 ^ 53 - 1)"
    by (simp only: of_int_le_iff)
  then have n: "real_of_int \<bar>n\<bar> \<le> 2 ^ 53 - 1"
    by simp
  have k: "(2::real) powi k \<le> 2 powi 971"
    using assms(3) by (intro power_int_increasing) simp_all
  have "real_of_int \<bar>n\<bar> * 2 powi k \<le> (2 ^ 53 - 1) * 2 powi 971"
    using n k by (intro mult_mono) simp_all
  also have "\<dots> = fl_max"
    unfolding fl_max_def by (simp only: power_int_numeral)
  finally have "\<bar>of_int n * 2 powi k\<bar> \<le> fl_max"
    by (simp add: abs_mult)
  then show ?thesis
    using fl_round_dyadic [OF assms(1,2)] by (simp add: is_double_def)
qed

lemma fl_round_double: "is_double x \<Longrightarrow> fl_round x = x"
  by (simp add: is_double_def)

lemma fl_result_double: "is_double x \<Longrightarrow> fl_result x = Inr (PFloat x)"
  by (simp add: is_double_def fl_result_def)

lemma is_double_examples:
  "is_double (1 / 2 ^ 60)"
  "is_double (- (1 / 2 ^ 60))"
  "is_double (- 100 - 1 / 2 ^ 45)"
  "is_double (80 - 1 / 2 ^ 45)"
  "is_double (- 180 - 1 / 2 ^ 45)"
  "is_double (180 - 1 / 2 ^ 45)"
  "is_double (1 - 1 / 2 ^ 45)"
  "is_double (181 - 1 / 2 ^ 45)"
  "is_double 180"
  "is_double 360"
  "is_double 0"
  using is_double_dyadic [of 1 "- 60"] is_double_dyadic [of "- 1" "- 60"]
    is_double_dyadic [of "- (100 * 2 ^ 45 + 1)" "- 45"]
    is_double_dyadic [of "80 * 2 ^ 45 - 1" "- 45"]
    is_double_dyadic [of "- (180 * 2 ^ 45 + 1)" "- 45"]
    is_double_dyadic [of "180 * 2 ^ 45 - 1" "- 45"]
    is_double_dyadic [of "2 ^ 45 - 1" "- 45"]
    is_double_dyadic [of "181 * 2 ^ 45 - 1" "- 45"]
    is_double_dyadic [of 180 0] is_double_dyadic [of 360 0] is_double_dyadic [of 0 0]
  by simp_all

lemma fl_round_below_360: "fl_round (360 - 1 / 2 ^ 60) = 360"
  by (subst fl_round_eval [of 8]) (simp_all add: round_half_even_def)

lemma fl_round_above_360: "fl_round (360 + 1 / 2 ^ 60) = 360"
  by (subst fl_round_eval [of 8]) (simp_all add: round_half_even_def)

lemma fl_round_tie_260: "fl_round (260 - 1 / 2 ^ 45) = 260"
  by (subst fl_round_eval [of 8]) (simp_all add: round_half_even_def)


lemma angle_distance_rounding_example:
  "angle_distance (PFloat (- 100 - 1 / 2 ^ 45)) (PFloat (80 - 1 / 2 ^ 45)) =
     Inr (PFloat (180 - 1 / 2 ^ 45))"
  using fl_round_tie_260 is_double_examples(5,6)
  by (simp add: angle_distance_def py_mod_360_float_unfold fmod_def trunc_def
      fl_result_def fl_round_double fl_round_numeral fl_max_def Let_def py_min_def py_lt_def
      del: py_mod.simps(2))

subsection \<open>The float remainder of a double is the rounded exact remainder\<close>

lemma on_grid_mono:
  assumes "p \<le> q" "on_grid q x"
  shows "on_grid p x"
proof -
  obtain n :: int where n: "x = of_int n * 2 powi q"
    using assms(2) by (auto simp add: on_grid_def)
  have "(2::real) powi q = 2 powi ((q - p) + p)"
    by simp
  also have "\<dots> = of_int (2 ^ nat (q - p)) * 2 powi p"
    using assms(1) by (intro powi_split) simp
  finally have "x = of_int (n * 2 ^ nat (q - p)) * 2 powi p"
    using n by simp
  then show ?thesis
    unfolding on_grid_def by blast
qed

lemma on_grid_diff:
  assumes "on_grid p x" "on_grid p y"
  shows "on_grid p (x - y)"
proof -
  obtain n m :: int where "x = of_int n * 2 powi p" "y = of_int m * 2 powi p"
    using assms by (auto simp add: on_grid_def)
  then have "x - y = of_int (n - m) * 2 powi p"
    by (simp add: algebra_simps)
  then show ?thesis
    unfolding on_grid_def by blast
qed

lemma on_grid_mult:
  assumes "on_grid p x"
  shows "on_grid p (x * of_int m)"
proof -
  obtain n :: int where "x = of_int n * 2 powi p"
    using assms by (auto simp add: on_grid_def)
  then have "x * of_int m = of_int (n * m) * 2 powi p"
    by simp
  then show ?thesis
    unfolding on_grid_def by blast
qed

lemma on_grid_360:
  assumes "p \<le> 3"
  shows "on_grid p 360"
proof -
  have "(360::real) = of_int 45 * 2 powi 3"
    by simp
  then have "on_grid 3 360"
    unfolding on_grid_def by blast
  then show ?thesis
    using assms by (rule on_grid_mono [rotated])
qed

lemma is_double_on_grid:
  assumes "is_double x"
  shows "on_grid (fl_exponent x - 52) x"
proof (cases "x = 0")
  case True
  then have "x = of_int 0 * 2 powi (fl_exponent x - 52)"
    by simp
  then show ?thesis
    unfolding on_grid_def by blast
next
  case False
  then have "x = of_int (round_half_even (x / fl_ulp x)) * fl_ulp x"
    using assms by (simp add: is_double_def fl_round_def)
  then show ?thesis
    unfolding on_grid_def fl_ulp_def by blast
qed

lemma on_grid_fl_round:
  assumes "on_grid (fl_exponent y - 52) y"
  shows "fl_round y = y"
proof (cases "y = 0")
  case True
  then show ?thesis by (simp add: fl_round_0)
next
  case False
  obtain n :: int where "y = of_int n * fl_ulp y"
    using assms by (auto simp add: on_grid_def fl_ulp_def)
  then have "of_int (round_half_even (y / fl_ulp y)) * fl_ulp y = y"
    by (rule grid_fix [OF fl_ulp_pos])
  then show ?thesis
    using False by (simp only: fl_round_def if_False)
qed

lemma fl_exponent_mono:
  assumes "0 < y" "y \<le> x"
  shows "fl_exponent y \<le> fl_exponent x"
proof -
  have "log 2 \<bar>y\<bar> \<le> log 2 \<bar>x\<bar>"
    using assms by simp
  then have "\<lfloor>log 2 \<bar>y\<bar>\<rfloor> \<le> \<lfloor>log 2 \<bar>x\<bar>\<rfloor>"
    by (rule floor_mono)
  then show ?thesis
    by (simp add: fl_exponent_def)
qed

lemma fl_exponent_below_360:
  assumes "0 < y" "y < 360"
  shows "fl_exponent y \<le> 8"
proof -
  have "2 powi \<lfloor>log 2 \<bar>y\<bar>\<rfloor> \<le> \<bar>y\<bar>"
    using assms by (intro log2_bounds(1)) simp
  also have "\<bar>y\<bar> < 2 powi 9"
    using assms by simp
  finally have "\<lfloor>log 2 \<bar>y\<bar>\<rfloor> < 9"
    by (rule powi_less_cancel)
  then show ?thesis
    by (simp add: fl_exponent_def)
qed

lemma is_double_mod360:
  assumes "is_double x" "0 \<le> x"
  shows "is_double (mod360 x)"
proof (cases "mod360 x = 0")
  case True
  then show ?thesis
    using is_double_examples(11) by simp
next
  case False
  let ?y = "mod360 x"
  have y: "0 < ?y" "?y < 360"
    using mod360_range [of x] False by simp_all
  have "0 \<le> \<lfloor>x / 360\<rfloor>"
    using assms(2) by simp
  then have "0 \<le> 360 * real_of_int \<lfloor>x / 360\<rfloor>"
    by simp
  then have yx: "?y \<le> x"
    by (simp add: mod360_def)
  define p where "p = min (fl_exponent x - 52) 3"
  have "on_grid p x"
    using is_double_on_grid [OF assms(1)] by (rule on_grid_mono [rotated]) (simp add: p_def)
  moreover have "on_grid p (360 * of_int \<lfloor>x / 360\<rfloor>)"
    by (intro on_grid_mult on_grid_360) (simp add: p_def)
  ultimately have "on_grid p ?y"
    unfolding mod360_def by (rule on_grid_diff)
  moreover have "fl_exponent ?y - 52 \<le> p"
    using fl_exponent_mono [OF y(1) yx] fl_exponent_below_360 [OF y] by (simp add: p_def)
  ultimately have "on_grid (fl_exponent ?y - 52) ?y"
    by (rule on_grid_mono [rotated])
  then have "fl_round ?y = ?y"
    by (rule on_grid_fl_round)
  moreover have "\<bar>?y\<bar> \<le> fl_max"
    using y fl_max_ge_360 by linarith
  ultimately show ?thesis
    by (simp add: is_double_def)
qed

lemma mod360_neg:
  assumes "mod360 (- x) \<noteq> 0"
  shows "mod360 x = 360 - mod360 (- x)"
proof -
  have "0 \<le> 360 - mod360 (- x)" "360 - mod360 (- x) < 360"
    using mod360_range [of "- x"] assms by simp_all
  moreover have "x = (360 - mod360 (- x)) + 360 * of_int (- \<lfloor>- x / 360\<rfloor> - 1)"
    by (simp add: mod360_def)
  ultimately show ?thesis
    by (rule mod360_unique)
qed

lemma mod360_neg_0:
  assumes "mod360 (- x) = 0"
  shows "mod360 x = 0"
proof -
  have "x = 0 + 360 * of_int (- \<lfloor>- x / 360\<rfloor>)"
    using assms by (simp add: mod360_def)
  then show ?thesis
    by (intro mod360_unique [of 0 x "- \<lfloor>- x / 360\<rfloor>"]) simp_all
qed

lemma py_mod_360_double:
  assumes "is_double x"
  shows "py_mod (PFloat x) (PInt 360) = Inr (PFloat (fl_round (mod360 x)))"
proof (cases "0 \<le> x")
  case True
  then show ?thesis
    using is_double_mod360 [OF assms True]
    by (simp add: py_mod_360_float_nonneg fl_round_double del: py_mod.simps)
next
  case False
  then have "x < 0" by simp
  then show ?thesis
    using mod360_neg [of x] mod360_neg_0 [of x]
    by (auto simp add: py_mod_360_float_neg fl_round_0 simp del: py_mod.simps)
qed

lemma py_mod_360_double_shift:
  assumes "is_double x" "is_double (x + 360 * of_int k)"
  shows "py_mod (PFloat (x + 360 * of_int k)) (PInt 360) = py_mod (PFloat x) (PInt 360)"
  by (simp only: py_mod_360_double [OF assms(1)] py_mod_360_double [OF assms(2)] mod360_shift)

subsection \<open>The function in double arithmetic\<close>

lemma py_mod_360_wf:
  assumes "py_wf a"
  shows "\<exists>r. py_mod a (PInt 360) = Inr r \<and> py_val r = fl_round (mod360 (py_val a)) \<and>
    0 \<le> py_val r \<and> py_val r \<le> 360"
proof (cases a)
  case (PInt i)
  have "\<bar>i mod 360\<bar> < 2 ^ 53"
    by simp
  then have "fl_round (of_int (i mod 360)) = of_int (i mod 360)"
    by (rule fl_round_of_int)
  then show ?thesis
    using PInt py_mod_360 [of a] by (auto simp add: mod360_of_int)
next
  case (PFloat x)
  then show ?thesis
    using assms py_mod_360_double [of x] py_mod_360 [of a] by auto
qed

lemma py_sub_small_value:
  assumes "\<bar>py_val x\<bar> \<le> 360" "\<bar>py_val y\<bar> \<le> 360" "\<bar>py_val x - py_val y\<bar> \<le> 360"
  shows "\<exists>s. py_sub x y = Inr s \<and> py_val s = fl_round (py_val x - py_val y) \<and>
    is_int s = (is_int x \<and> is_int y)"
proof (cases "is_int x \<and> is_int y")
  case True
  then obtain i j where ij: "x = PInt i" "y = PInt j"
    by (cases x; cases y) simp_all
  then have "\<bar>i - j\<bar> \<le> 360"
    using assms(3) by simp
  then have "fl_round (of_int (i - j)) = of_int (i - j)"
    by (intro fl_round_of_int) simp
  then show ?thesis
    using ij by simp
next
  case False
  then show ?thesis
    using py_sub_small [OF assms] by auto
qed

lemma angle_distance_v3_small_value:
  assumes "0 \<le> py_val x" "py_val x \<le> 360" "0 \<le> py_val y" "py_val y \<le> 360"
  shows "\<exists>r. angle_distance_v3 x y = Inr r \<and>
    py_val r = (let d = \<bar>fl_round (py_val y - py_val x)\<bar> in min (fl_round (360 - d)) d)"
proof -
  have diff: "\<bar>py_val y - py_val x\<bar> \<le> 360"
    using assms by linarith
  obtain s where s: "py_sub y x = Inr s" "py_val s = fl_round (py_val y - py_val x)"
    using py_sub_small_value [of y x] assms diff by force
  have s360: "\<bar>py_val s\<bar> \<le> 360"
    using s(2) fl_round_abs_le_360 [OF diff] by simp
  define d where "d = py_abs s"
  have d: "py_val d = \<bar>py_val s\<bar>"
    by (simp add: d_def py_abs_val)
  obtain t where t: "py_sub (PInt 360) d = Inr t" "py_val t = fl_round (360 - py_val d)"
    using py_sub_small_value [of "PInt 360" d] d s360 by force
  have "angle_distance_v3 x y = Inr (py_min t d)"
    by (simp add: angle_distance_v3_def s(1) t(1) flip: d_def)
  moreover have "py_val (py_min t d) =
      (let d = \<bar>fl_round (py_val y - py_val x)\<bar> in min (fl_round (360 - d)) d)"
    by (simp add: py_min_val t(2) d s(2) Let_def)
  ultimately show ?thesis
    by blast
qed

lemma angle_distance_rounded_value:
  assumes "py_wf a" "py_wf b"
  shows "\<exists>r. angle_distance a b = Inr r \<and>
    py_val r = angle_distance_spec_rounded (py_val a) (py_val b)"
proof -
  obtain an where an: "py_mod a (PInt 360) = Inr an"
    "py_val an = fl_round (mod360 (py_val a))" "0 \<le> py_val an" "py_val an \<le> 360"
    using py_mod_360_wf [OF assms(1)] by blast
  obtain bn where bn: "py_mod b (PInt 360) = Inr bn"
    "py_val bn = fl_round (mod360 (py_val b))" "0 \<le> py_val bn" "py_val bn \<le> 360"
    using py_mod_360_wf [OF assms(2)] by blast
  obtain r where r: "angle_distance_v3 an bn = Inr r"
    "py_val r = (let d = \<bar>fl_round (py_val bn - py_val an)\<bar> in min (fl_round (360 - d)) d)"
    using angle_distance_v3_small_value [OF an(3,4) bn(3,4)] by blast
  have "\<bar>fl_round (py_val bn - py_val an)\<bar> = \<bar>fl_round (py_val an - py_val bn)\<bar>"
    using fl_round_minus [of "py_val an - py_val bn"] by simp
  then have "py_val r = angle_distance_spec_rounded (py_val a) (py_val b)"
    using r(2) by (simp add: angle_distance_spec_rounded_def Let_def an(2) bn(2) mod360_frac)
  then show ?thesis
    using angle_distance_via_v3 [OF bn(1) an(1)] r(1) by simp
qed

lemma fl_round_is_double:
  assumes "\<bar>fl_round z\<bar> \<le> fl_max"
  shows "is_double (fl_round z)"
proof (cases "z = 0")
  case True
  then show ?thesis
    using is_double_examples(11) by (simp add: fl_round_0)
next
  case False
  define E where "E = fl_exponent z"
  define n where "n = round_half_even (z / fl_ulp z)"
  have r: "fl_round z = of_int n * 2 powi (E - 52)"
    using False by (simp add: fl_round_def n_def E_def fl_ulp_def)
  have E: "- 1022 \<le> E" "\<lfloor>log 2 \<bar>z\<bar>\<rfloor> \<le> E"
    by (simp_all add: E_def fl_exponent_def)
  have ulp: "fl_ulp z = 2 powi (E - 52)"
    by (simp add: fl_ulp_def E_def)
  have P53: "real_of_int (2 ^ 53) * 2 powi (E - 52) = 2 powi (E + 1)"
  proof -
    have "(2::real) powi (53 + (E - 52)) = of_int (2 ^ nat 53) * 2 powi (E - 52)"
      by (intro powi_split) simp
    moreover have "53 + (E - 52) = E + 1" "nat 53 = 53"
      by simp_all
    ultimately show ?thesis
      by metis
  qed
  have "\<bar>z\<bar> < 2 powi (\<lfloor>log 2 \<bar>z\<bar>\<rfloor> + 1)"
    using False by (rule log2_bounds(2))
  also have "\<dots> \<le> 2 powi (E + 1)"
    using E(2) by (intro power_int_increasing) simp_all
  also have "\<dots> = of_int (2 ^ 53) * fl_ulp z"
    unfolding ulp by (rule P53 [symmetric])
  finally have zb: "\<bar>z\<bar> < of_int (2 ^ 53) * fl_ulp z" .
  have up: "z / fl_ulp z \<le> of_int (2 ^ 53)"
    using zb fl_ulp_pos [of z] by (simp add: field_simps)
  have lo: "of_int (- (2 ^ 53)) \<le> z / fl_ulp z"
    using zb fl_ulp_pos [of z] by (simp add: field_simps)
  have "n \<le> 2 ^ 53"
    using round_half_even_mono [OF up] unfolding n_def round_half_even_of_int .
  moreover have "- (2 ^ 53) \<le> n"
    using round_half_even_mono [OF lo] unfolding n_def round_half_even_of_int .
  ultimately consider "\<bar>n\<bar> < 2 ^ 53" | "n = 2 ^ 53" | "n = - (2 ^ 53)"
    by linarith
  then have "fl_round (fl_round z) = fl_round z"
  proof cases
    case 1
    then show ?thesis
      unfolding r using E(1) by (intro fl_round_dyadic) simp_all
  next
    case 2
    have "fl_round z = of_int 1 * 2 powi (E + 1)"
      unfolding r 2 P53 by simp
    moreover have "fl_round (of_int 1 * 2 powi (E + 1)) = of_int 1 * 2 powi (E + 1)"
      using E(1) by (intro fl_round_dyadic) simp_all
    ultimately show ?thesis
      by simp
  next
    case 3
    have "fl_round z = of_int (- 1) * 2 powi (E + 1)"
      unfolding r 3 of_int_minus mult_minus_left P53 by simp
    moreover have "fl_round (of_int (- 1) * 2 powi (E + 1)) = of_int (- 1) * 2 powi (E + 1)"
      using E(1) by (intro fl_round_dyadic) simp_all
    ultimately show ?thesis
      by simp
  qed
  then show ?thesis
    using assms by (simp add: is_double_def)
qed

lemma fl_result_is_double:
  assumes "fl_result z = Inr (PFloat y)"
  shows "is_double y"
  using assms fl_round_is_double [of z]
  by (auto simp add: fl_result_def Let_def split: if_splits)

lemma py_add_float_is_double:
  assumes "py_add (PFloat x) c = Inr (PFloat y)"
  shows "is_double y"
proof (cases "py_float c")
  case (Inl e)
  then show ?thesis
    using assms by (cases c) (simp_all del: py_float.simps(1))
next
  case (Inr v)
  then have "fl_result (x + v) = Inr (PFloat y)"
    using assms by (cases c) (simp_all del: py_float.simps(1))
  then show ?thesis
    by (rule fl_result_is_double)
qed

lemma is_double_halves: "is_double (1 / 2)" "is_double (721 / 2)"
  using is_double_dyadic [of 1 "- 1"] is_double_dyadic [of 721 "- 1"] by simp_all

subsection \<open>Examples\<close>

text \<open>
  The model at inputs where Python's floats round. With the doubles nearest to 0.1 and
  300.1: \<^verbatim>\<open>angle_distance(-0.1, 0.0)\<close> is \<open>0.10000000000002274\<close>, the double
  \<open>879609302221 / 2 ^ 43\<close>, and \<^verbatim>\<open>angle_distance(0.1, 300.1)\<close> is \<open>60.0\<close>. The third
  version returns \<open>- 90\<close> at \<open>(720, 270)\<close>, the failure that the notebook's fourth test
  exposes; it returns \<open>- 9007199254740632.0\<close> at \<open>(2 ^ 53 + 1, 0.0)\<close>, where the int is
  rounded when it is converted, and raises \<^verbatim>\<open>OverflowError\<close> at \<open>(10 ^ 400, 0.5)\<close>.
\<close>

lemma fl_round_example_1:
  "fl_round (360 - 3602879701896397 / 2 ^ 55) = 3165713878692659 / 2 ^ 43"
  by (subst fl_round_eval [of 8]) (simp_all add: round_half_even_def)

lemma fl_round_example_2:
  "fl_round (2639707515964621 / 2 ^ 43 - 3602879701896397 / 2 ^ 55) = 300"
  by (subst fl_round_eval [of 8]) (simp_all add: round_half_even_def)

lemma fl_round_example_3: "fl_round (2 ^ 53 + 1) = 2 ^ 53"
  by (subst fl_round_eval [of 53]) (simp_all add: round_half_even_def)

lemma fl_result_examples:
  "fl_result (360 - 3602879701896397 / 2 ^ 55) = Inr (PFloat (3165713878692659 / 2 ^ 43))"
  "fl_result (2639707515964621 / 2 ^ 43 - 3602879701896397 / 2 ^ 55) = Inr (PFloat 300)"
  unfolding fl_result_def fl_round_example_1 fl_round_example_2
  by (simp_all add: fl_max_def)

lemma is_double_example_values:
  "is_double (- (3165713878692659 / 2 ^ 43))"
  "is_double (879609302221 / 2 ^ 43)"
  "is_double (- 9007199254740632)"
  "is_double (539 / 2)"
  "is_double (21 / 2)"
  "is_double 0"
  "is_double (699 / 2)"
  "is_double 9007199254740992"
  using is_double_dyadic [of 699 "- 1"] is_double_dyadic [of 1 53]
    is_double_dyadic [of "- 3165713878692659" "- 43"]
    is_double_dyadic [of 879609302221 "- 43"]
    is_double_dyadic [of "- 9007199254740632" 0]
    is_double_dyadic [of 539 "- 1"] is_double_dyadic [of 21 "- 1"] is_double_dyadic [of 0 0]
  by simp_all

lemma fl_round_huge: "fl_max < fl_round (10 ^ 400)"
proof -
  have "fl_round (of_int 1 * 2 powi 1024) = of_int 1 * 2 powi 1024"
    by (intro fl_round_dyadic) simp_all
  moreover have "fl_round (of_int 1 * 2 powi 1024) \<le> fl_round (10 ^ 400)"
    by (intro fl_round_mono) simp
  ultimately show ?thesis
    by (simp add: fl_max_def)
qed

lemma angle_distance_float_examples:
  "angle_distance (PFloat (- (3602879701896397 / 2 ^ 55))) (PFloat 0) =
     Inr (PFloat (879609302221 / 2 ^ 43))"
  "angle_distance (PFloat (3602879701896397 / 2 ^ 55)) (PFloat (2639707515964621 / 2 ^ 43)) =
     Inr (PFloat 60)"
  "angle_distance (PFloat (- (181 / 2))) (PInt 1000) = Inr (PFloat (21 / 2))"
  using fl_result_examples is_double_example_values
  by (simp_all add: angle_distance_def py_mod_360_float_unfold fmod_def trunc_def
      fl_result_double fl_result_numeral fl_round_numeral fl_max_def Let_def py_min_def
      py_lt_def del: py_mod.simps(2))

lemma angle_distance_v3_examples:
  "angle_distance_v3 (PInt 720) (PInt 270) = Inr (PInt (- 90))"
  "angle_distance_v3 (PInt (2 ^ 53 + 1)) (PFloat 0) = Inr (PFloat (- 9007199254740632))"
  "angle_distance_v3 (PInt (10 ^ 400)) (PFloat (1 / 2)) = Inl OverflowError"
  using fl_round_example_3 is_double_example_values(3,8) fl_round_huge
  by (simp_all add: angle_distance_v3_def fl_result_def fl_round_double fl_round_numeral
      fl_round_minus fl_max_def Let_def py_min_def py_lt_def)

subsection \<open>Rounding errors and the distance to the exact reference value\<close>

lemma round_half_even_error: "\<bar>of_int (round_half_even q) - q\<bar> \<le> 1 / 2"
proof -
  have "of_int \<lfloor>q\<rfloor> \<le> q" "q < of_int \<lfloor>q\<rfloor> + 1"
    by linarith+
  then show ?thesis
    by (auto simp add: round_half_even_def Let_def)
qed

lemma fl_round_error: "\<bar>fl_round z - z\<bar> \<le> fl_ulp z / 2"
proof (cases "z = 0")
  case True
  then show ?thesis
    using fl_ulp_pos [of z] by (simp add: fl_round_0)
next
  case False
  define u where "u = fl_ulp z"
  have u: "0 < u"
    by (simp add: u_def fl_ulp_pos)
  have "fl_round z - z = (of_int (round_half_even (z / u)) - z / u) * u"
    using False u by (simp add: fl_round_def u_def algebra_simps)
  then have "\<bar>fl_round z - z\<bar> = \<bar>of_int (round_half_even (z / u)) - z / u\<bar> * u"
    using u by (simp add: abs_mult)
  also have "\<dots> \<le> (1 / 2) * u"
    using round_half_even_error [of "z / u"] u by (intro mult_right_mono) simp_all
  finally show ?thesis
    by (simp add: u_def)
qed

lemma fl_ulp_below_512:
  assumes "z \<noteq> 0" "\<bar>z\<bar> < 512"
  shows "fl_ulp z \<le> 1 / 2 ^ 44"
proof -
  have "2 powi \<lfloor>log 2 \<bar>z\<bar>\<rfloor> \<le> \<bar>z\<bar>"
    using assms(1) by (rule log2_bounds(1))
  also have "\<bar>z\<bar> < 2 powi 9"
    using assms(2) by simp
  finally have "\<lfloor>log 2 \<bar>z\<bar>\<rfloor> < 9"
    by (rule powi_less_cancel)
  then have "fl_exponent z - 52 \<le> - 44"
    by (simp add: fl_exponent_def)
  then have "(2::real) powi (fl_exponent z - 52) \<le> 2 powi (- 44)"
    by (intro power_int_increasing) simp_all
  then show ?thesis
    by (simp add: fl_ulp_def power_int_minus divide_simps)
qed

lemma fl_round_error_below_512:
  assumes "\<bar>z\<bar> < 512"
  shows "\<bar>fl_round z - z\<bar> \<le> 1 / 2 ^ 45"
proof (cases "z = 0")
  case True
  then show ?thesis by (simp add: fl_round_0)
next
  case False
  have "fl_ulp z / 2 \<le> (1 / 2 ^ 44) / 2"
    using fl_ulp_below_512 [OF False assms] by simp
  then show ?thesis
    using fl_round_error [of z] by simp
qed

lemma min_close:
  fixes a b a' b' c :: real
  assumes "\<bar>a - a'\<bar> \<le> c" "\<bar>b - b'\<bar> \<le> c"
  shows "\<bar>min a b - min a' b'\<bar> \<le> c"
  using assms by (simp add: min_def) linarith

lemma angle_distance_spec_rounded_close:
  "\<bar>angle_distance_spec_rounded x y - angle_distance_spec x y\<bar> \<le> 1 / 2 ^ 43"
proof -
  define e :: real where "e = 1 / 2 ^ 45"
  define ma where "ma = normalize_spec x"
  define mb where "mb = normalize_spec y"
  define na where "na = fl_round ma"
  define nb where "nb = fl_round mb"
  define s where "s = fl_round (na - nb)"
  define S where "S = \<bar>s\<bar>"
  define D where "D = \<bar>ma - mb\<bar>"
  define t where "t = fl_round (360 - S)"
  have e0: "0 \<le> e"
    by (simp add: e_def)
  have ma: "0 \<le> ma" "ma < 360" and mb: "0 \<le> mb" "mb < 360"
    using normalize_spec_range [of x] normalize_spec_range [of y] by (simp_all add: ma_def mb_def)
  have na: "0 \<le> na" "na \<le> 360" "\<bar>na - ma\<bar> \<le> e"
    using ma fl_round_nonneg [of ma] fl_round_le [of ma 360] fl_round_error_below_512 [of ma]
    by (simp_all add: na_def e_def)
  have nb: "0 \<le> nb" "nb \<le> 360" "\<bar>nb - mb\<bar> \<le> e"
    using mb fl_round_nonneg [of mb] fl_round_le [of mb 360] fl_round_error_below_512 [of mb]
    by (simp_all add: nb_def e_def)
  have d360: "\<bar>na - nb\<bar> \<le> 360"
    using na(1,2) nb(1,2) by linarith
  have s: "\<bar>s\<bar> \<le> 360" "\<bar>s - (na - nb)\<bar> \<le> e"
    using fl_round_abs_le_360 [OF d360] fl_round_error_below_512 [of "na - nb"] d360
    by (simp_all add: s_def e_def)
  have S: "0 \<le> S" "S \<le> 360"
    using s(1) by (simp_all add: S_def)
  have t: "\<bar>t - (360 - S)\<bar> \<le> e"
    using fl_round_error_below_512 [of "360 - S"] S by (simp add: t_def e_def)
  have "\<bar>s - (ma - mb)\<bar> \<le> 3 * e"
    using s(2) na(3) nb(3) by linarith
  moreover have "\<bar>S - D\<bar> \<le> \<bar>s - (ma - mb)\<bar>"
    unfolding S_def D_def by (rule abs_triangle_ineq3)
  ultimately have sd: "\<bar>S - D\<bar> \<le> 3 * e"
    by linarith
  then have sd4: "\<bar>S - D\<bar> \<le> 4 * e"
    using e0 by linarith
  have td: "\<bar>t - (360 - D)\<bar> \<le> 4 * e"
    using t sd by linarith
  have "\<bar>min t S - min (360 - D) D\<bar> \<le> 4 * e"
    using td sd4 by (rule min_close)
  moreover have "angle_distance_spec_rounded x y = min t S"
    by (simp add: angle_distance_spec_rounded_def Let_def t_def S_def s_def na_def nb_def
        ma_def mb_def)
  moreover have "angle_distance_spec x y = min (360 - D) D"
    by (simp add: angle_distance_spec_def Let_def D_def ma_def mb_def)
  ultimately show ?thesis
    by (simp add: e_def)
qed

lemma py_add_wf:
  assumes "py_add x y = Inr r"
  shows "py_wf r"
proof (cases "is_int x \<and> is_int y")
  case True
  then obtain i j where "x = PInt i" "y = PInt j"
    by (cases x; cases y) simp_all
  then show ?thesis
    using assms by auto
next
  case False
  then have *: "py_add x y =
      bind_result (py_float x) (\<lambda>u. bind_result (py_float y) (\<lambda>v. fl_result (u + v)))"
    by (cases x; cases y) simp_all
  show ?thesis
  proof (cases "py_float x")
    case (Inl e)
    then show ?thesis using assms * by simp
  next
    case u: (Inr u)
    show ?thesis
    proof (cases "py_float y")
      case (Inl e)
      then show ?thesis using assms * u by simp
    next
      case v: (Inr v)
      then have "fl_result (u + v) = Inr r"
        using assms * u by simp
      then obtain z where "r = PFloat z" "fl_result (u + v) = Inr (PFloat z)"
        by (auto simp add: fl_result_def Let_def split: if_splits)
      then show ?thesis
        using fl_result_is_double [of "u + v" z] by simp
    qed
  qed
qed

lemma angle_distance_close:
  assumes "py_wf a" "py_wf b"
  shows "\<exists>r. angle_distance a b = Inr r \<and>
    py_val r = angle_distance_spec_rounded (py_val a) (py_val b) \<and>
    \<bar>py_val r - angle_distance_spec (py_val a) (py_val b)\<bar> \<le> 1 / 2 ^ 43 \<and>
    py_val r \<le> 180"
proof -
  obtain r where r: "angle_distance a b = Inr r"
    "py_val r = angle_distance_spec_rounded (py_val a) (py_val b)"
    using angle_distance_rounded_value [OF assms] by blast
  obtain an where an: "py_mod a (PInt 360) = Inr an" "0 \<le> py_val an" "py_val an \<le> 360"
    using py_mod_360 [of a] by blast
  obtain bn where bn: "py_mod b (PInt 360) = Inr bn" "0 \<le> py_val bn" "py_val bn \<le> 360"
    using py_mod_360 [of b] by blast
  have "py_val r \<le> 180"
    using angle_distance_via_v3 [OF bn(1) an(1)] angle_distance_v3_small [OF an(2,3) bn(2,3)] r(1)
    by auto
  then show ?thesis
    using r angle_distance_spec_rounded_close [of "py_val a" "py_val b"] by auto
qed

lemma py_add_half_examples:
  "py_add (PFloat (1 / 2)) (PInt 180) = Inr (PFloat (361 / 2))"
  "py_add (PFloat (1 / 2)) (PInt 101) = Inr (PFloat (203 / 2))"
  "py_add (PFloat (3 / 2)) (PInt 101) = Inr (PFloat (205 / 2))"
  "is_double (3 / 2)"
  using is_double_dyadic [of 361 "- 1"] is_double_dyadic [of 203 "- 1"]
    is_double_dyadic [of 205 "- 1"] is_double_dyadic [of 3 "- 1"]
  by (simp_all add: fl_result_double fl_round_numeral fl_max_def)

section \<open>The properties of the specification\<close>

text \<open>
  Claim C1, as it holds of the function. On two ints the final \<^verbatim>\<open>angle_distance\<close>
  returns exactly the value of the specification's reference definition: each input
  reduced modulo 360 into \<open>[0, 360)\<close>, the absolute difference \<open>d\<close> of the two normalised
  values, and \<open>min (360 - d) d\<close>. On every pair of numbers, ints or doubles, it returns a
  number, never an error, whose value is the reference definition evaluated in double
  arithmetic, the result of each step rounded to the nearest double; that value differs
  from the exact reference value by at most \<open>1 / 2 ^ 43\<close>.
\<close>

theorem angle_distance_refines_spec:
  "(\<exists>r. angle_distance (PInt i) (PInt j) = Inr r \<and>
      py_val r = angle_distance_spec (of_int i) (of_int j)) \<and>
   (py_wf a \<and> py_wf b \<longrightarrow>
     (\<exists>r. angle_distance a b = Inr r \<and>
        py_val r = angle_distance_spec_rounded (py_val a) (py_val b) \<and>
        \<bar>py_val r - angle_distance_spec (py_val a) (py_val b)\<bar> \<le> 1 / 2 ^ 43))"
proof (intro conjI impI)
  show "\<exists>r. angle_distance (PInt i) (PInt j) = Inr r \<and>
      py_val r = angle_distance_spec (of_int i) (of_int j)"
    by (simp only: angle_distance_PInt sum.inject ex_simps simp_thms py_val.simps
        angle_distance_PInt_real angle_distance_real_spec)
next
  assume "py_wf a \<and> py_wf b"
  then show "\<exists>r. angle_distance a b = Inr r \<and>
      py_val r = angle_distance_spec_rounded (py_val a) (py_val b) \<and>
      \<bar>py_val r - angle_distance_spec (py_val a) (py_val b)\<bar> \<le> 1 / 2 ^ 43"
    using angle_distance_close [of a b] by blast
qed

theorem angle_distance_refines_spec_witness:
  "py_wf (PFloat (1 / 2)) \<and> py_wf (PInt 90) \<and>
   (\<exists>r. angle_distance (PInt 10) (PInt 90) = Inr r \<and>
      py_val r = angle_distance_spec (of_int 10) (of_int 90)) \<and>
   (\<exists>r. angle_distance (PFloat (1 / 2)) (PInt 90) = Inr r \<and>
      py_val r = angle_distance_spec_rounded (py_val (PFloat (1 / 2))) (py_val (PInt 90)) \<and>
      \<bar>py_val r - angle_distance_spec (py_val (PFloat (1 / 2))) (py_val (PInt 90))\<bar>
        \<le> 1 / 2 ^ 43)"
proof -
  have a: "py_wf (PFloat (1 / 2))" and b: "py_wf (PInt 90)"
    using is_double_halves(1) by simp_all
  show ?thesis
    using a b angle_distance_refines_spec [of 10 90 "PFloat (1 / 2)" "PInt 90"] by blast
qed

text \<open>
  Claim C1 as stated, equality with the exact reference definition for every pair of
  real inputs, fails on floats: on the doubles \<open>- 1 / 2 ^ 60\<close> and \<open>0\<close> the function returns
  \<open>0\<close>, because \<^verbatim>\<open>a % 360\<close> rounds to \<open>360\<close>, where the reference value is \<open>1 / 2 ^ 60\<close>.
\<close>

theorem angle_distance_refines_spec_counterexample:
  "angle_distance (PFloat (- (1 / 2 ^ 60))) (PFloat 0) = Inr (PFloat 0) \<and>
   angle_distance_spec (py_val (PFloat (- (1 / 2 ^ 60)))) (py_val (PFloat 0)) = 1 / 2 ^ 60 \<and>
   py_val (PFloat 0) \<noteq> 1 / 2 ^ 60"
  using fl_round_below_360
  by (simp add: angle_distance_def py_mod_360_float_unfold fmod_def trunc_def
      fl_result_def fl_round_numeral fl_round_minus fl_round_0 fl_max_def Let_def
      py_min_def py_lt_def angle_distance_spec_def normalize_spec_def frac_def
      del: py_mod.simps(2))

text \<open>
  Claim C2. For every pair of inputs the function returns a number that lies between 0
  and 180; in particular it is non-negative.
\<close>

theorem angle_distance_bounds:
  "\<exists>r. angle_distance a b = Inr r \<and> 0 \<le> py_val r \<and> py_val r \<le> 180"
proof -
  obtain an where an: "py_mod a (PInt 360) = Inr an" "0 \<le> py_val an" "py_val an \<le> 360"
    using py_mod_360 [of a] by blast
  obtain bn where bn: "py_mod b (PInt 360) = Inr bn" "0 \<le> py_val bn" "py_val bn \<le> 360"
    using py_mod_360 [of b] by blast
  show ?thesis
    using angle_distance_via_v3 [OF bn(1) an(1)] angle_distance_v3_small [OF an(2,3) bn(2,3)]
    by auto
qed

text \<open>
  Claim C3. The function is symmetric in its arguments. The two calls return the very same
  number, of the same Python type.
\<close>

theorem angle_distance_symmetric: "angle_distance a b = angle_distance b a"
proof -
  obtain an where an: "py_mod a (PInt 360) = Inr an"
    using py_mod_360 [of a] by blast
  obtain bn where bn: "py_mod b (PInt 360) = Inr bn"
    using py_mod_360 [of b] by blast
  show ?thesis
    using angle_distance_via_v3 [OF bn an] angle_distance_via_v3 [OF an bn]
      angle_distance_v3_sym [of an bn]
    by simp
qed

text \<open>
  Claim C4, as it holds of the function. The function has period 360 in its first
  argument whenever Python computes \<^verbatim>\<open>a + 360*k\<close> exactly: for every int \<open>a\<close>, every
  integer \<open>k\<close> and every \<open>b\<close>, and for every double \<open>a\<close> for which the float sum
  \<^verbatim>\<open>a + 360*k\<close> is the exact sum. The two calls then return the very same outcome.
\<close>

theorem angle_distance_periodic:
  "py_add (PInt i) (PInt (360 * k)) = Inr (PInt (i + 360 * k)) \<and>
   angle_distance (PInt (i + 360 * k)) b = angle_distance (PInt i) b \<and>
   (is_double x \<and> py_add (PFloat x) (PInt (360 * k)) = Inr (PFloat (x + 360 * of_int k)) \<longrightarrow>
      angle_distance (PFloat (x + 360 * of_int k)) b = angle_distance (PFloat x) b)"
proof (intro conjI impI)
  show "py_add (PInt i) (PInt (360 * k)) = Inr (PInt (i + 360 * k))"
    by simp
  have "py_mod (PInt (i + 360 * k)) (PInt 360) = py_mod (PInt i) (PInt 360)"
    by simp
  then show "angle_distance (PInt (i + 360 * k)) b = angle_distance (PInt i) b"
    by (simp add: angle_distance_def del: py_mod.simps)
next
  assume *: "is_double x \<and>
    py_add (PFloat x) (PInt (360 * k)) = Inr (PFloat (x + 360 * of_int k))"
  then have "is_double x" "is_double (x + 360 * of_int k)"
    using py_add_float_is_double [of x "PInt (360 * k)" "x + 360 * of_int k"] by simp_all
  then have "py_mod (PFloat (x + 360 * of_int k)) (PInt 360) = py_mod (PFloat x) (PInt 360)"
    by (rule py_mod_360_double_shift)
  then show "angle_distance (PFloat (x + 360 * of_int k)) b = angle_distance (PFloat x) b"
    by (simp add: angle_distance_def del: py_mod.simps)
qed

theorem angle_distance_periodic_witness:
  "is_double (1 / 2) \<and>
   py_add (PFloat (1 / 2)) (PInt (360 * 1)) = Inr (PFloat (1 / 2 + 360 * of_int 1)) \<and>
   py_add (PInt 7) (PInt (360 * 1)) = Inr (PInt (7 + 360 * 1)) \<and>
   angle_distance (PInt (7 + 360 * 1)) (PInt 90) = angle_distance (PInt 7) (PInt 90) \<and>
   angle_distance (PFloat (1 / 2 + 360 * of_int 1)) (PInt 90) =
     angle_distance (PFloat (1 / 2)) (PInt 90)"
proof -
  have a: "is_double (1 / 2)"
    by (rule is_double_halves)
  have b: "py_add (PFloat (1 / 2)) (PInt (360 * 1)) = Inr (PFloat (1 / 2 + 360 * of_int 1))"
    using is_double_halves(2)
    by (simp add: fl_result_double fl_round_numeral fl_max_def)
  show ?thesis
    using a b angle_distance_periodic [of 7 1 "PInt 90" "1 / 2"] by blast
qed

text \<open>
  Claim C4 as stated, for every real \<open>a\<close>, fails on floats whose sum is rounded: for the
  double \<open>a = 1 / 2 ^ 60\<close> and \<open>k = 1\<close> Python computes \<^verbatim>\<open>a + 360*k\<close> as \<open>360\<close>, and the
  distance to \<open>0\<close> is \<open>0\<close> from there and \<open>1 / 2 ^ 60\<close> from \<open>a\<close>.
\<close>

theorem angle_distance_periodic_counterexample:
  "is_double (1 / 2 ^ 60) \<and>
   py_add (PFloat (1 / 2 ^ 60)) (PInt (360 * 1)) = Inr (PFloat 360) \<and>
   angle_distance (PFloat 360) (PFloat 0) = Inr (PFloat 0) \<and>
   angle_distance (PFloat (1 / 2 ^ 60)) (PFloat 0) = Inr (PFloat (1 / 2 ^ 60)) \<and>
   \<not> py_eq (PFloat 0) (PFloat (1 / 2 ^ 60))"
  using fl_round_below_360 fl_round_above_360 is_double_examples(1,2)
  by (simp add: angle_distance_def py_mod_360_float_unfold fmod_def trunc_def
      fl_result_def fl_round_double fl_round_0 fl_round_numeral fl_max_def Let_def
      py_min_def py_lt_def py_eq_def
      del: py_mod.simps(2))

text \<open>
  Claim C5. The distance of an angle to itself is zero:
  \<^verbatim>\<open>angle_distance(a, a) == 0\<close> for every input \<open>a\<close>.
\<close>

theorem angle_distance_self: "\<exists>r. angle_distance a a = Inr r \<and> py_eq r (PInt 0)"
proof -
  obtain an where an: "py_mod a (PInt 360) = Inr an"
    using py_mod_360 [of a] by blast
  show ?thesis
    using angle_distance_via_v3 [OF an an] angle_distance_v3_same [of an]
    by (simp add: py_eq_def)
qed

text \<open>
  Claim C6, as it holds of the function. For every int \<open>a\<close>, \<^verbatim>\<open>a + 180\<close> is the int
  \<open>a + 180\<close> and \<^verbatim>\<open>angle_distance(a, a + 180)\<close> returns the int 180. For every number
  \<open>a\<close>, int or double, for which Python computes \<^verbatim>\<open>a + 180\<close> exactly,
  \<^verbatim>\<open>angle_distance(a, a + 180)\<close> returns a number between \<open>180 - 1 / 2 ^ 43\<close> and
  \<open>180\<close>.
\<close>

theorem angle_distance_antipodal:
  "py_add (PInt i) (PInt 180) = Inr (PInt (i + 180)) \<and>
   angle_distance (PInt i) (PInt (i + 180)) = Inr (PInt 180) \<and>
   (py_wf a \<and> py_add a (PInt 180) = Inr b \<and> py_val b = py_val a + 180 \<longrightarrow>
     (\<exists>r. angle_distance a b = Inr r \<and> 180 - 1 / 2 ^ 43 \<le> py_val r \<and> py_val r \<le> 180))"
proof (intro conjI impI)
  let ?A = "let d = \<bar>(i + 180) mod 360 - i mod 360\<bar> in min (360 - d) d"
  have "angle_distance_real (of_int i) (of_int (i + 180)) = 180"
    using angle_distance_real_antipodal [of "of_int i"] by (simp only: of_int_add of_int_numeral)
  then have "real_of_int ?A = real_of_int 180"
    by (simp only: angle_distance_PInt_real of_int_numeral)
  then have "?A = 180"
    by (simp only: of_int_eq_iff)
  then show "angle_distance (PInt i) (PInt (i + 180)) = Inr (PInt 180)"
    by (simp only: angle_distance_PInt)
  show "py_add (PInt i) (PInt 180) = Inr (PInt (i + 180))"
    by simp
next
  assume *: "py_wf a \<and> py_add a (PInt 180) = Inr b \<and> py_val b = py_val a + 180"
  then have "py_wf a" "py_wf b"
    using py_add_wf [of a "PInt 180" b] by simp_all
  then obtain r where r: "angle_distance a b = Inr r"
    "\<bar>py_val r - angle_distance_spec (py_val a) (py_val b)\<bar> \<le> 1 / 2 ^ 43" "py_val r \<le> 180"
    using angle_distance_close [of a b] by blast
  have "angle_distance_spec (py_val a) (py_val b) = 180"
    using * angle_distance_real_antipodal [of "py_val a"]
    by (simp add: angle_distance_real_spec)
  then have "180 - 1 / 2 ^ 43 \<le> py_val r"
    using r(2) by linarith
  then show "\<exists>r. angle_distance a b = Inr r \<and> 180 - 1 / 2 ^ 43 \<le> py_val r \<and> py_val r \<le> 180"
    using r(1,3) by blast
qed

theorem angle_distance_antipodal_witness:
  "py_wf (PFloat (1 / 2)) \<and> py_add (PFloat (1 / 2)) (PInt 180) = Inr (PFloat (361 / 2)) \<and>
   py_val (PFloat (361 / 2)) = py_val (PFloat (1 / 2)) + 180 \<and>
   py_add (PInt 7) (PInt 180) = Inr (PInt (7 + 180)) \<and>
   angle_distance (PInt 7) (PInt (7 + 180)) = Inr (PInt 180) \<and>
   (\<exists>r. angle_distance (PFloat (1 / 2)) (PFloat (361 / 2)) = Inr r \<and>
      180 - 1 / 2 ^ 43 \<le> py_val r \<and> py_val r \<le> 180)"
proof -
  have h: "py_wf (PFloat (1 / 2))" "py_add (PFloat (1 / 2)) (PInt 180) = Inr (PFloat (361 / 2))"
    "py_val (PFloat (361 / 2)) = py_val (PFloat (1 / 2)) + 180"
    using is_double_halves(1) py_add_half_examples(1) by simp_all
  show ?thesis
    using h angle_distance_antipodal [of 7 "PFloat (1 / 2)" "PFloat (361 / 2)"] by blast
qed

text \<open>
  Claim C6 as stated, for every real \<open>a\<close>, fails on floats, also where \<^verbatim>\<open>a + 180\<close> is
  exact: for the double \<open>a = - 100 - 1 / 2 ^ 45\<close> the sum is the double \<open>80 - 1 / 2 ^ 45\<close>, but
  \<^verbatim>\<open>a % 360\<close> rounds to \<open>260\<close> and the function returns \<open>180 - 1 / 2 ^ 45\<close>.
\<close>

theorem angle_distance_antipodal_counterexample:
  "is_double (- 100 - 1 / 2 ^ 45) \<and>
   py_add (PFloat (- 100 - 1 / 2 ^ 45)) (PInt 180) = Inr (PFloat (80 - 1 / 2 ^ 45)) \<and>
   angle_distance (PFloat (- 100 - 1 / 2 ^ 45)) (PFloat (80 - 1 / 2 ^ 45)) =
     Inr (PFloat (180 - 1 / 2 ^ 45)) \<and>
   \<not> py_eq (PFloat (180 - 1 / 2 ^ 45)) (PInt 180)"
  using angle_distance_rounding_example is_double_examples(3,4)
  by (simp add: fl_result_def fl_round_double fl_round_numeral fl_max_def Let_def py_eq_def)

text \<open>
  Claim C7. The four scenarios of the test class \<^verbatim>\<open>TestAngle\<close>: the distance of 10 and 90
  is 80, of 0 and 270 is 90, of 1 and 359 is 2, and of 720 and 270 is 90. The tests pass
  ints; the same holds for the floats of the same values.
\<close>

theorem angle_distance_scenarios:
  "angle_distance (PInt 10) (PInt 90) = Inr (PInt 80) \<and>
   angle_distance (PInt 0) (PInt 270) = Inr (PInt 90) \<and>
   angle_distance (PInt 1) (PInt 359) = Inr (PInt 2) \<and>
   angle_distance (PInt 720) (PInt 270) = Inr (PInt 90) \<and>
   angle_distance (PFloat 10) (PFloat 90) = Inr (PFloat 80) \<and>
   angle_distance (PFloat 0) (PFloat 270) = Inr (PFloat 90) \<and>
   angle_distance (PFloat 1) (PFloat 359) = Inr (PFloat 2) \<and>
   angle_distance (PFloat 720) (PFloat 270) = Inr (PFloat 90)"
  by (simp add: angle_distance_def py_mod_360_float_unfold fmod_def trunc_def
      fl_result_numeral fl_round_numeral fl_max_def py_min_def py_lt_def
      del: py_mod.simps(2))



text \<open>
  Claim C9, as it holds of the function. On ints the function is invariant under a common
  rotation of both inputs: for all ints \<open>a\<close>, \<open>b\<close>, \<open>c\<close> the sums are exact and
  \<^verbatim>\<open>angle_distance(a + c, b + c)\<close> returns what \<^verbatim>\<open>angle_distance(a, b)\<close> returns. For
  all numbers \<open>a\<close>, \<open>b\<close>, ints or doubles, and every \<open>c\<close> for which Python computes
  \<^verbatim>\<open>a + c\<close> and \<^verbatim>\<open>b + c\<close> exactly, both calls return numbers, and the two numbers
  differ by at most \<open>1 / 2 ^ 42\<close>.
\<close>

theorem angle_distance_rotation:
  "py_add (PInt i) (PInt c) = Inr (PInt (i + c)) \<and>
   py_add (PInt j) (PInt c) = Inr (PInt (j + c)) \<and>
   angle_distance (PInt (i + c)) (PInt (j + c)) = angle_distance (PInt i) (PInt j) \<and>
   (py_wf a \<and> py_wf b \<and>
    py_add a z = Inr a' \<and> py_val a' = py_val a + py_val z \<and>
    py_add b z = Inr b' \<and> py_val b' = py_val b + py_val z \<longrightarrow>
     (\<exists>r r'. angle_distance a' b' = Inr r \<and> angle_distance a b = Inr r' \<and>
        \<bar>py_val r - py_val r'\<bar> \<le> 1 / 2 ^ 42))"
proof (intro conjI impI)
  show "py_add (PInt i) (PInt c) = Inr (PInt (i + c))"
    and "py_add (PInt j) (PInt c) = Inr (PInt (j + c))"
    by simp_all
  show "angle_distance (PInt (i + c)) (PInt (j + c)) = angle_distance (PInt i) (PInt j)"
    by (rule angle_distance_PInt_rot)
next
  assume *: "py_wf a \<and> py_wf b \<and>
    py_add a z = Inr a' \<and> py_val a' = py_val a + py_val z \<and>
    py_add b z = Inr b' \<and> py_val b' = py_val b + py_val z"
  then have wf: "py_wf a" "py_wf b" "py_wf a'" "py_wf b'"
    using py_add_wf [of a z a'] py_add_wf [of b z b'] by simp_all
  obtain r where r: "angle_distance a' b' = Inr r"
    "\<bar>py_val r - angle_distance_spec (py_val a') (py_val b')\<bar> \<le> 1 / 2 ^ 43"
    using angle_distance_close [OF wf(3,4)] by blast
  obtain r' where r': "angle_distance a b = Inr r'"
    "\<bar>py_val r' - angle_distance_spec (py_val a) (py_val b)\<bar> \<le> 1 / 2 ^ 43"
    using angle_distance_close [OF wf(1,2)] by blast
  have "angle_distance_spec (py_val a') (py_val b') = angle_distance_spec (py_val a) (py_val b)"
    using * angle_distance_real_rot [of "py_val a" "py_val z" "py_val b"]
    by (simp add: angle_distance_real_spec)
  then have "\<bar>py_val r - py_val r'\<bar> \<le> 1 / 2 ^ 43 + 1 / 2 ^ 43"
    using r(2) r'(2) by linarith
  then have "\<bar>py_val r - py_val r'\<bar> \<le> 1 / 2 ^ 42"
    by simp
  then show "\<exists>r r'. angle_distance a' b' = Inr r \<and> angle_distance a b = Inr r' \<and>
      \<bar>py_val r - py_val r'\<bar> \<le> 1 / 2 ^ 42"
    using r(1) r'(1) by blast
qed

theorem angle_distance_rotation_witness:
  "py_wf (PFloat (1 / 2)) \<and> py_wf (PFloat (3 / 2)) \<and>
   py_add (PFloat (1 / 2)) (PInt 101) = Inr (PFloat (203 / 2)) \<and>
   py_val (PFloat (203 / 2)) = py_val (PFloat (1 / 2)) + py_val (PInt 101) \<and>
   py_add (PFloat (3 / 2)) (PInt 101) = Inr (PFloat (205 / 2)) \<and>
   py_val (PFloat (205 / 2)) = py_val (PFloat (3 / 2)) + py_val (PInt 101) \<and>
   py_add (PInt 10) (PInt 101) = Inr (PInt (10 + 101)) \<and>
   py_add (PInt 90) (PInt 101) = Inr (PInt (90 + 101)) \<and>
   angle_distance (PInt (10 + 101)) (PInt (90 + 101)) = angle_distance (PInt 10) (PInt 90) \<and>
   (\<exists>r r'. angle_distance (PFloat (203 / 2)) (PFloat (205 / 2)) = Inr r \<and>
      angle_distance (PFloat (1 / 2)) (PFloat (3 / 2)) = Inr r' \<and>
      \<bar>py_val r - py_val r'\<bar> \<le> 1 / 2 ^ 42)"
proof -
  have h: "py_wf (PFloat (1 / 2))" "py_wf (PFloat (3 / 2))"
    "py_add (PFloat (1 / 2)) (PInt 101) = Inr (PFloat (203 / 2))"
    "py_val (PFloat (203 / 2)) = py_val (PFloat (1 / 2)) + py_val (PInt 101)"
    "py_add (PFloat (3 / 2)) (PInt 101) = Inr (PFloat (205 / 2))"
    "py_val (PFloat (205 / 2)) = py_val (PFloat (3 / 2)) + py_val (PInt 101)"
    using is_double_halves(1) py_add_half_examples(2,3,4) by simp_all
  show ?thesis
    using h angle_distance_rotation [of 10 101 90 "PFloat (1 / 2)" "PFloat (3 / 2)" "PInt 101"
        "PFloat (203 / 2)" "PFloat (205 / 2)"]
    by blast
qed

text \<open>
  Claim C9 as stated, for all real \<open>a\<close>, \<open>b\<close>, \<open>c\<close>, fails on floats, also where both
  sums are exact: for the doubles \<open>a = - 100 - 1 / 2 ^ 45\<close>, \<open>b = 80 - 1 / 2 ^ 45\<close> and
  \<open>c = 101\<close> the rotated inputs are at distance \<open>180\<close> and the original ones at distance
  \<open>180 - 1 / 2 ^ 45\<close>.
\<close>

theorem angle_distance_rotation_counterexample:
  "is_double (- 100 - 1 / 2 ^ 45) \<and> is_double (80 - 1 / 2 ^ 45) \<and>
   py_add (PFloat (- 100 - 1 / 2 ^ 45)) (PInt 101) = Inr (PFloat (1 - 1 / 2 ^ 45)) \<and>
   py_add (PFloat (80 - 1 / 2 ^ 45)) (PInt 101) = Inr (PFloat (181 - 1 / 2 ^ 45)) \<and>
   angle_distance (PFloat (1 - 1 / 2 ^ 45)) (PFloat (181 - 1 / 2 ^ 45)) = Inr (PFloat 180) \<and>
   angle_distance (PFloat (- 100 - 1 / 2 ^ 45)) (PFloat (80 - 1 / 2 ^ 45)) =
     Inr (PFloat (180 - 1 / 2 ^ 45)) \<and>
   \<not> py_eq (PFloat 180) (PFloat (180 - 1 / 2 ^ 45))"
  using angle_distance_rounding_example is_double_examples(3,4,7,8)
  by (simp add: angle_distance_def py_mod_360_float_unfold fmod_def trunc_def
      fl_result_def fl_round_double fl_round_numeral fl_max_def Let_def py_min_def py_lt_def
      py_eq_def
      del: py_mod.simps(2))

text \<open>
  Claim C10. On inputs already in the canonical range, \<open>0 \<le> a < 360\<close> and
  \<open>0 \<le> b < 360\<close>, the third version of the function returns what the final version
  returns, and that is a number.
\<close>

theorem angle_distance_v3_agrees:
  assumes "0 \<le> py_val a" "py_val a < 360" "0 \<le> py_val b" "py_val b < 360"
  shows "angle_distance a b = angle_distance_v3 a b \<and> (\<exists>r. angle_distance_v3 a b = Inr r)"
proof
  show "angle_distance a b = angle_distance_v3 a b"
    using assms by (intro angle_distance_via_v3 py_mod_360_canonical)
  show "\<exists>r. angle_distance_v3 a b = Inr r"
    using angle_distance_v3_small [of a b] assms by force
qed

theorem angle_distance_v3_agrees_witness:
  "0 \<le> py_val (PInt 1) \<and> py_val (PInt 1) < 360 \<and>
   0 \<le> py_val (PFloat 359.5) \<and> py_val (PFloat 359.5) < 360 \<and>
   angle_distance (PInt 1) (PFloat 359.5) = angle_distance_v3 (PInt 1) (PFloat 359.5) \<and>
   angle_distance_v3 (PInt 1) (PFloat 359.5) = Inr (PFloat 1.5)"
  using angle_distance_v3_agrees [of "PInt 1" "PFloat 359.5"]
  by (simp add: angle_distance_v3_def fl_result_def fl_round_numeral fl_round_1
      fl_round_358_5 fl_round_1_5 fl_max_def Let_def py_min_def py_lt_def)

end
